theory Spec2Isabelle
  imports Complex_Main
begin

section \<open>MouseWalk (Linux): the velocity selector\<close>

text \<open>
  The development embeds \<^verbatim>\<open>src/MouseWalkLinux/main_linux.py\<close>. Python floats are
  modelled as real numbers (exact arithmetic), with two exceptions where rounding or
  overflow decides what the program does: the reversal test of lines 334-335 and the
  product of line 451 are read from the machine, which is a parameter of the model.
  Every operation of the source that can raise is a branch of the model.
\<close>

subsection \<open>Exceptions and checked division\<close>

datatype exn =
  ZeroDivisionError | OSError | AssertionError | ValueError | OverflowError | SystemExit int

text \<open>Python's \<^verbatim>\<open>a / b\<close> on floats raises \<^verbatim>\<open>ZeroDivisionError\<close> when \<^verbatim>\<open>b == 0.0\<close>.\<close>

definition fdiv :: "real \<Rightarrow> real \<Rightarrow> exn + real" where
  "fdiv a b = (if b = 0 then Inl ZeroDivisionError else Inr (a / b))"

subsection \<open>The pseudo-random source\<close>

text \<open>
  The generator is a tape of drawn values together with the number of values drawn so
  far. \<^verbatim>\<open>randbelow(n)\<close> reads the next value of the tape modulo \<open>n\<close>;
  \<^verbatim>\<open>random()\<close> reads the next value as a fraction in \<open>[0, 1)\<close>.
\<close>

type_synonym rng = "(nat \<Rightarrow> nat) \<times> nat"

definition randbelow :: "nat \<Rightarrow> rng \<Rightarrow> nat \<times> rng" where
  "randbelow n g = (fst g (snd g) mod n, (fst g, Suc (snd g)))"

definition random_unit :: "rng \<Rightarrow> real \<times> rng" where
  "random_unit g = (real (fst g (snd g) mod 2 ^ 53) / 2 ^ 53, (fst g, Suc (snd g)))"

text \<open>\<^verbatim>\<open>random.uniform(a, b)\<close> is \<^verbatim>\<open>a + (b - a) * random()\<close>.\<close>

definition uniform :: "real \<Rightarrow> real \<Rightarrow> rng \<Rightarrow> real \<times> rng" where
  "uniform a b g = (case random_unit g of (u, g') \<Rightarrow> (a + (b - a) * u, g'))"

text \<open>\<^verbatim>\<open>random.choice(seq)\<close> is \<^verbatim>\<open>seq[randbelow(len(seq))]\<close>; the source only
  calls it on \<^verbatim>\<open>[-1.0, 1.0]\<close>.\<close>

definition choice :: "real list \<Rightarrow> rng \<Rightarrow> real \<times> rng" where
  "choice xs g = (case randbelow (length xs) g of (j, g') \<Rightarrow> (xs ! j, g'))"

text \<open>\<^verbatim>\<open>random.shuffle(x)\<close>: for \<open>i\<close> from \<open>len(x) - 1\<close> down to \<open>1\<close>, swap
  \<open>x[i]\<close> with \<open>x[randbelow(i + 1)]\<close>.\<close>

fun shuffle_down :: "nat \<Rightarrow> real list \<Rightarrow> rng \<Rightarrow> real list \<times> rng" where
  "shuffle_down 0 xs g = (xs, g)"
| "shuffle_down (Suc i) xs g =
     (case randbelow (Suc (Suc i)) g of
        (j, g') \<Rightarrow> shuffle_down i (xs[Suc i := xs ! j, j := xs ! Suc i]) g')"

definition shuffle :: "real list \<Rightarrow> rng \<Rightarrow> real list \<times> rng" where
  "shuffle xs g = shuffle_down (length xs - 1) xs g"

subsection \<open>pick_diagonal_velocity\<close>

definition signf :: "real \<Rightarrow> real" where
  "signf v = (if v \<ge> 0 then 1 else -1)"

definition hypot :: "real \<Rightarrow> real \<Rightarrow> real" where
  "hypot x y = sqrt (x * x + y * y)"

text \<open>Line 294: \<^verbatim>\<open>comp = max(1.0, float(speed_mag)) / math.sqrt(2.0)\<close>.\<close>

definition comp_of :: "real \<Rightarrow> exn + real" where
  "comp_of speed_mag = fdiv (max 1 speed_mag) (sqrt 2)"

text \<open>Lines 299-302: the previous handedness, when the previous velocity is near-diagonal.\<close>

definition s_prev_of :: "real \<Rightarrow> real \<Rightarrow> exn + real option" where
  "s_prev_of prev_vx prev_vy =
     (let prev_speed = hypot prev_vx prev_vy in
      if prev_speed > 1 / 1000000
         \<and> \<bar>\<bar>prev_vx\<bar> - \<bar>prev_vy\<bar>\<bar> \<le> max 1 (0.05 * prev_speed)
      then (case fdiv (signf prev_vy) (signf prev_vx) of
              Inl e \<Rightarrow> Inl e | Inr q \<Rightarrow> Inr (Some q))
      else Inr None)"

text \<open>Lines 312-313: the signs forced by the walls.\<close>

definition wall_sign :: "bool \<Rightarrow> bool \<Rightarrow> real option" where
  "wall_sign hit_lo hit_hi = (if hit_lo then Some 1 else if hit_hi then Some (-1) else None)"

text \<open>
  Lines 334-335 compute \<^verbatim>\<open>(prev_vx * vx + prev_vy * vy) / (prev_speed * comp)\<close> in double
  arithmetic and compare the result with \<^verbatim>\<open>-0.2\<close>. The two products, the sum, the product
  in the denominator and the quotient are each rounded; a product that overflows makes the
  quotient an infinity or a nan, and \<^verbatim>\<open>nan <= -0.2\<close> is \<^verbatim>\<open>False\<close>. The outcome of that
  comparison is therefore not computed from the real numbers: it is read from a parameter.
  \<open>fp prev_vx prev_vy vx vy prev_speed comp\<close> is the value of \<^verbatim>\<open>cos_sim <= -0.2\<close> on the
  machine that runs the program, for the call that these arguments identify. \<open>exact_fp\<close>
  is the machine that neither rounds nor overflows.
\<close>

type_synonym fpu = "real \<Rightarrow> real \<Rightarrow> real \<Rightarrow> real \<Rightarrow> real \<Rightarrow> real \<Rightarrow> bool"

definition exact_fp :: fpu where
  "exact_fp prev_vx prev_vy vx vy prev_speed comp_v =
     ((prev_vx * vx + prev_vy * vy) / (prev_speed * comp_v) \<le> - 0.2)"

text \<open>Lines 330-338: scale the tried signs, test the reversal, return or continue.
  \<open>None\<close> is \<^verbatim>\<open>continue\<close>, \<open>Some v\<close> is \<^verbatim>\<open>return v\<close>. The division of line 334
  raises when its denominator is zero.\<close>

definition accept :: "fpu \<Rightarrow> real \<Rightarrow> real \<Rightarrow> real \<Rightarrow> real \<Rightarrow> real \<Rightarrow> real
    \<Rightarrow> exn + (real \<times> real) option" where
  "accept fp comp_v prev_vx prev_vy prev_speed hx_try hy_try =
     (let vx = hx_try * comp_v; vy = hy_try * comp_v in
      if prev_speed > 1 / 1000000 then
        (case fdiv (prev_vx * vx + prev_vy * vy) (prev_speed * comp_v) of
           Inl e \<Rightarrow> Inl e
         | Inr cos_sim \<Rightarrow>
             if fp prev_vx prev_vy vx vy prev_speed comp_v then Inr None
             else Inr (Some (vx, vy)))
      else Inr (Some (vx, vy)))"

text \<open>Lines 312-338: the body of the loop over the candidate handedness \<open>s\<close>.\<close>

definition try_candidate :: "fpu \<Rightarrow> real \<Rightarrow> bool \<Rightarrow> bool \<Rightarrow> bool \<Rightarrow> bool \<Rightarrow> real \<Rightarrow> real \<Rightarrow> real
    \<Rightarrow> real \<Rightarrow> rng \<Rightarrow> exn + ((real \<times> real) option \<times> rng)" where
  "try_candidate fp comp_v hit_left hit_right hit_top hit_bottom prev_vx prev_vy prev_speed s g =
     (case (wall_sign hit_left hit_right, wall_sign hit_top hit_bottom) of
        (None, None) \<Rightarrow>
          (case choice [-1, 1] g of
             (hx_try, g') \<Rightarrow>
               (case accept fp comp_v prev_vx prev_vy prev_speed hx_try (s * hx_try) of
                  Inl e \<Rightarrow> Inl e | Inr r \<Rightarrow> Inr (r, g')))
      | (None, Some hy) \<Rightarrow>
          (case fdiv hy s of
             Inl e \<Rightarrow> Inl e
           | Inr hx_try \<Rightarrow>
               (case accept fp comp_v prev_vx prev_vy prev_speed hx_try hy of
                  Inl e \<Rightarrow> Inl e | Inr r \<Rightarrow> Inr (r, g)))
      | (Some hx, None) \<Rightarrow>
          (case accept fp comp_v prev_vx prev_vy prev_speed hx (s * hx) of
             Inl e \<Rightarrow> Inl e | Inr r \<Rightarrow> Inr (r, g))
      | (Some hx, Some hy) \<Rightarrow>
          (case fdiv hy hx of
             Inl e \<Rightarrow> Inl e
           | Inr q \<Rightarrow>
               if \<bar>q - s\<bar> > 0.1 then Inr (None, g)
               else (case accept fp comp_v prev_vx prev_vy prev_speed hx hy of
                       Inl e \<Rightarrow> Inl e | Inr r \<Rightarrow> Inr (r, g))))"

text \<open>Line 311: \<^verbatim>\<open>for s in candidates\<close>, left at the first returned velocity.\<close>

fun try_candidates :: "fpu \<Rightarrow> real \<Rightarrow> bool \<Rightarrow> bool \<Rightarrow> bool \<Rightarrow> bool \<Rightarrow> real \<Rightarrow> real \<Rightarrow> real
    \<Rightarrow> real list \<Rightarrow> rng \<Rightarrow> exn + ((real \<times> real) option \<times> rng)" where
  "try_candidates fp comp_v hl hr ht hb pvx pvy ps [] g = Inr (None, g)"
| "try_candidates fp comp_v hl hr ht hb pvx pvy ps (s # ss) g =
     (case try_candidate fp comp_v hl hr ht hb pvx pvy ps s g of
        Inl e \<Rightarrow> Inl e
      | Inr (Some v, g') \<Rightarrow> Inr (Some v, g')
      | Inr (None, g') \<Rightarrow> try_candidates fp comp_v hl hr ht hb pvx pvy ps ss g')"

text \<open>Lines 305-309: the order in which the two handedness values are tried.\<close>

definition candidates_of :: "real option \<Rightarrow> rng \<Rightarrow> real list \<times> rng" where
  "candidates_of s_prev g =
     (case s_prev of
        Some sp \<Rightarrow> (filter (\<lambda>x. x \<noteq> sp) [1, -1] @ [sp], g)
      | None \<Rightarrow> shuffle [1, -1] g)"

text \<open>Line 304: \<^verbatim>\<open>for _ in range(16)\<close>; the argument counts the rounds that remain.\<close>

fun search :: "fpu \<Rightarrow> nat \<Rightarrow> real \<Rightarrow> bool \<Rightarrow> bool \<Rightarrow> bool \<Rightarrow> bool \<Rightarrow> real \<Rightarrow> real \<Rightarrow> real
    \<Rightarrow> real option \<Rightarrow> rng \<Rightarrow> exn + ((real \<times> real) option \<times> rng)" where
  "search fp 0 comp_v hl hr ht hb pvx pvy ps s_prev g = Inr (None, g)"
| "search fp (Suc n) comp_v hl hr ht hb pvx pvy ps s_prev g =
     (case candidates_of s_prev g of
        (candidates, g1) \<Rightarrow>
          (case try_candidates fp comp_v hl hr ht hb pvx pvy ps candidates g1 of
             Inl e \<Rightarrow> Inl e
           | Inr (Some v, g2) \<Rightarrow> Inr (Some v, g2)
           | Inr (None, g2) \<Rightarrow> search fp n comp_v hl hr ht hb pvx pvy ps s_prev g2))"

text \<open>Lines 341-343: the fallback. Python evaluates \<open>hx\<close> before \<open>hy\<close>.\<close>

definition fallback_sign :: "bool \<Rightarrow> bool \<Rightarrow> rng \<Rightarrow> real \<times> rng" where
  "fallback_sign hit_lo hit_hi g =
     (if hit_lo then (1, g) else if hit_hi then (-1, g) else choice [-1, 1] g)"

definition fallback :: "real \<Rightarrow> bool \<Rightarrow> bool \<Rightarrow> bool \<Rightarrow> bool \<Rightarrow> rng \<Rightarrow> (real \<times> real) \<times> rng" where
  "fallback comp_v hit_left hit_right hit_top hit_bottom g =
     (case fallback_sign hit_left hit_right g of
        (hx, g1) \<Rightarrow>
          (case fallback_sign hit_top hit_bottom g1 of
             (hy, g2) \<Rightarrow> ((hx * comp_v, hy * comp_v), g2)))"

definition pick_diagonal_velocity :: "fpu \<Rightarrow> real \<Rightarrow> bool \<Rightarrow> bool \<Rightarrow> bool \<Rightarrow> bool \<Rightarrow> real \<Rightarrow> real
    \<Rightarrow> rng \<Rightarrow> exn + ((real \<times> real) \<times> rng)" where
  "pick_diagonal_velocity fp speed_mag hit_left hit_right hit_top hit_bottom prev_vx prev_vy g =
     (case comp_of speed_mag of
        Inl e \<Rightarrow> Inl e
      | Inr comp_v \<Rightarrow>
          (case s_prev_of prev_vx prev_vy of
             Inl e \<Rightarrow> Inl e
           | Inr s_prev \<Rightarrow>
               (case search fp 16 comp_v hit_left hit_right hit_top hit_bottom
                       prev_vx prev_vy (hypot prev_vx prev_vy) s_prev g of
                  Inl e \<Rightarrow> Inl e
                | Inr (Some v, g') \<Rightarrow> Inr (v, g')
                | Inr (None, g') \<Rightarrow>
                    Inr (fallback comp_v hit_left hit_right hit_top hit_bottom g'))))"

section \<open>The adapter, the animation loop and the idle monitor\<close>

text \<open>
  The X11 context and everything it talks to is a record. Each answer of the display
  server is read from a tape in call order; \<open>trace\<close> records what the program did, most
  recent event first. \<open>AnimStart\<close> marks an entry into \<open>run_cursor_screensaver\<close>.
  The record also holds the two results of double arithmetic that the model reads instead
  of computing: \<open>fp_reverses\<close>, the comparison of line 335, and \<open>fp_mul\<close>, the product of
  two finite doubles (line 451), which is rounded and may overflow to an infinity.
\<close>

text \<open>A Python float: a finite number, an infinity or a nan.\<close>

datatype pyfloat = Finite real | PosInf | NegInf | NaN

definition exact_mul :: "real \<Rightarrow> real \<Rightarrow> pyfloat" where
  "exact_mul a b = Finite (a * b)"

datatype event =
    AnimStart
  | IdleRead nat
  | ForceArrow
  | RestoreCursor
  | WarpPointer int int
  | Sleep real
  | CloseDisplay

record world =
  display :: "nat option"
  server :: "nat option"
  hotkey_tape :: "nat \<Rightarrow> bool"
  hotkey_pos :: nat
  idle_tape :: "nat \<Rightarrow> nat option"
  idle_pos :: nat
  clock_tape :: "nat \<Rightarrow> real"
  clock_pos :: nat
  rand :: rng
  bounds :: "int \<times> int"
  pointer :: "int \<times> int"
  trace :: "event list"
  fp_reverses :: fpu
  fp_mul :: "real \<Rightarrow> real \<Rightarrow> pyfloat"

text \<open>
  A call returns, raises, or is still running when the observation ends (the loops of the
  source have no exit of their own; the fuel bounds how many iterations are observed).
\<close>

datatype 'a res = Return 'a | Raise exn | Unfinished

definition then_do :: "'a res \<times> world \<Rightarrow> ('a \<Rightarrow> world \<Rightarrow> 'b res \<times> world) \<Rightarrow> 'b res \<times> world" where
  "then_do m f =
     (case m of
        (Return x, w) \<Rightarrow> f x w
      | (Raise e, w) \<Rightarrow> (Raise e, w)
      | (Unfinished, w) \<Rightarrow> (Unfinished, w))"

definition record_event :: "event \<Rightarrow> world \<Rightarrow> world" where
  "record_event e w = w\<lparr>trace := e # trace w\<rparr>"

subsection \<open>X11Context\<close>

text \<open>Lines 175-183; the key grabs of lines 185-196 have no effect on the state modelled here.\<close>

definition xc_open :: "world \<Rightarrow> unit res \<times> world" where
  "xc_open w =
     (if display w \<noteq> None then (Return (), w)
      else (case server w of
              None \<Rightarrow> (Raise OSError, w)
            | Some dpy \<Rightarrow> (Return (), w\<lparr>display := Some dpy\<rparr>)))"

text \<open>Lines 198-211: the \<^verbatim>\<open>XUndefineCursor\<close> of \<open>close\<close> sits in \<^verbatim>\<open>try ... except Exception: pass\<close>.\<close>

definition xc_close :: "world \<Rightarrow> unit res \<times> world" where
  "xc_close w =
     (if display w = None then (Return (), w)
      else (Return (), (record_event CloseDisplay (record_event RestoreCursor w))\<lparr>display := None\<rparr>))"

definition get_virtual_bounds :: "world \<Rightarrow> (int \<times> int) res \<times> world" where
  "get_virtual_bounds w =
     (if display w = None then (Raise AssertionError, w) else (Return (bounds w), w))"

definition get_cursor_pos :: "world \<Rightarrow> (int \<times> int) res \<times> world" where
  "get_cursor_pos w =
     (if display w = None then (Raise AssertionError, w) else (Return (pointer w), w))"

definition set_cursor_pos :: "int \<Rightarrow> int \<Rightarrow> world \<Rightarrow> unit res \<times> world" where
  "set_cursor_pos x y w =
     (if display w = None then (Raise AssertionError, w)
      else (Return (), (record_event (WarpPointer x y) w)\<lparr>pointer := (x, y)\<rparr>))"

definition force_arrow_cursor :: "world \<Rightarrow> unit res \<times> world" where
  "force_arrow_cursor w =
     (if display w = None then (Raise AssertionError, w) else (Return (), record_event ForceArrow w))"

text \<open>Lines 253-256: an assertion and two Xlib calls, with no handler around them.\<close>

definition restore_cursor :: "world \<Rightarrow> unit res \<times> world" where
  "restore_cursor w =
     (if display w = None then (Raise AssertionError, w) else (Return (), record_event RestoreCursor w))"

text \<open>Lines 258-266: both failures of the query raise \<^verbatim>\<open>OSError\<close>.\<close>

definition query_idle_ms :: "world \<Rightarrow> nat res \<times> world" where
  "query_idle_ms w =
     (if display w = None then (Raise AssertionError, w)
      else (case idle_tape w (idle_pos w) of
              None \<Rightarrow> (Raise OSError, w\<lparr>idle_pos := Suc (idle_pos w)\<rparr>)
            | Some idle \<Rightarrow>
                (Return idle, (record_event (IdleRead idle) w)\<lparr>idle_pos := Suc (idle_pos w)\<rparr>)))"

text \<open>Lines 268-278: whether a quit key was among the pending key presses.\<close>

definition hotkey_quit_pressed :: "world \<Rightarrow> bool res \<times> world" where
  "hotkey_quit_pressed w =
     (if display w = None then (Raise AssertionError, w)
      else (Return (hotkey_tape w (hotkey_pos w)), w\<lparr>hotkey_pos := Suc (hotkey_pos w)\<rparr>))"

definition perf_counter :: "world \<Rightarrow> real \<times> world" where
  "perf_counter w = (clock_tape w (clock_pos w), w\<lparr>clock_pos := Suc (clock_pos w)\<rparr>)"

definition sleep :: "real \<Rightarrow> world \<Rightarrow> world" where
  "sleep d w = record_event (Sleep d) w"

subsection \<open>run_cursor_screensaver\<close>

definition clamp :: "real \<Rightarrow> real \<Rightarrow> real \<Rightarrow> real" where
  "clamp v min_value max_value = max min_value (min v max_value)"

text \<open>Python's \<^verbatim>\<open>round\<close> on a float: to the nearest integer, ties to the even one.\<close>

definition py_round :: "real \<Rightarrow> int" where
  "py_round x =
     (let f = \<lfloor>x\<rfloor>; d = x - of_int f in
      if d < 1 / 2 then f else if d > 1 / 2 then f + 1 else if even f then f else f + 1)"

text \<open>Python's \<^verbatim>\<open>int\<close> on a float truncates towards zero.\<close>

definition py_int :: "real \<Rightarrow> int" where
  "py_int x = (if x \<ge> 0 then \<lfloor>x\<rfloor> else \<lceil>x\<rceil>)"

definition min_x :: real where "min_x = 0"

definition min_y :: real where "min_y = 0"

record anim =
  pos_x :: real
  pos_y :: real
  vel_x :: real
  vel_y :: real
  idle_prev_ms :: nat
  prev_t :: real

text \<open>Lines 386-400: one edge-resolution pass; the result is the position and the four flags.\<close>

definition edge_pass :: "real \<Rightarrow> real \<Rightarrow> real \<Rightarrow> real
    \<Rightarrow> (real \<times> real) \<times> (bool \<times> bool \<times> bool \<times> bool)" where
  "edge_pass max_x max_y px py =
     (let hit_left = px < min_x; hit_right = px > max_x;
          hit_top = py < min_y; hit_bottom = py > max_y
      in if hit_left \<or> hit_right \<or> hit_top \<or> hit_bottom then
           (let px1 = clamp px min_x max_x;
                py1 = clamp py min_y max_y;
                px2 = (if hit_left then min_x + 1 else px1);
                px3 = (if hit_right then max_x - 1 else px2);
                py2 = (if hit_top then min_y + 1 else py1);
                py3 = (if hit_bottom then max_y - 1 else py2)
            in ((px3, py3), (hit_left, hit_right, hit_top, hit_bottom)))
         else ((px, py), (hit_left, hit_right, hit_top, hit_bottom)))"

text \<open>Lines 379-403: integrate, resolve the edges, pick a new velocity after a hit.\<close>

definition frame_update :: "fpu \<Rightarrow> real \<Rightarrow> real \<Rightarrow> anim \<Rightarrow> real \<Rightarrow> rng
    \<Rightarrow> exn + (anim \<times> rng)" where
  "frame_update fp max_x max_y a now g =
     (let dt = max 0 (min 0.05 (now - prev_t a));
          px = pos_x a + vel_x a * dt;
          py = pos_y a + vel_y a * dt
      in case edge_pass max_x max_y px py of
           ((px', py'), (hit_left, hit_right, hit_top, hit_bottom)) \<Rightarrow>
             if hit_left \<or> hit_right \<or> hit_top \<or> hit_bottom then
               (let speed_mag = max 150 (hypot (vel_x a) (vel_y a)) in
                case pick_diagonal_velocity fp speed_mag hit_left hit_right hit_top hit_bottom
                       (vel_x a) (vel_y a) g of
                  Inl e \<Rightarrow> Inl e
                | Inr ((vx, vy), g') \<Rightarrow>
                    Inr (a\<lparr>pos_x := px', pos_y := py', vel_x := vx, vel_y := vy, prev_t := now\<rparr>, g'))
             else Inr (a\<lparr>pos_x := px', pos_y := py', prev_t := now\<rparr>, g))"

text \<open>Lines 369-406: the loop; the first argument bounds the iterations observed.\<close>

fun animation_loop :: "nat \<Rightarrow> real \<Rightarrow> real \<Rightarrow> real \<Rightarrow> anim \<Rightarrow> world \<Rightarrow> unit res \<times> world" where
  "animation_loop 0 max_x max_y frame_dt a w = (Unfinished, w)"
| "animation_loop (Suc n) max_x max_y frame_dt a w =
     (case hotkey_quit_pressed w of
        (Raise e, w1) \<Rightarrow> (Raise e, w1)
      | (Unfinished, w1) \<Rightarrow> (Unfinished, w1)
      | (Return pressed, w1) \<Rightarrow>
          if pressed then (Raise (SystemExit 0), w1)
          else
            (case query_idle_ms w1 of
               (Raise e, w2) \<Rightarrow> (Raise e, w2)
             | (Unfinished, w2) \<Rightarrow> (Unfinished, w2)
             | (Return idle_ms, w2) \<Rightarrow>
                 if idle_ms + 50 < idle_prev_ms a then (Return (), w2)
                 else
                   (case perf_counter w2 of
                      (now, w3) \<Rightarrow>
                        (case frame_update (fp_reverses w3) max_x max_y
                                (a\<lparr>idle_prev_ms := idle_ms\<rparr>) now (rand w3) of
                           Inl e \<Rightarrow> (Raise e, w3)
                         | Inr (a', g') \<Rightarrow>
                             (case set_cursor_pos (py_round (pos_x a')) (py_round (pos_y a'))
                                     (w3\<lparr>rand := g'\<rparr>) of
                                (Raise e, w4) \<Rightarrow> (Raise e, w4)
                              | (Unfinished, w4) \<Rightarrow> (Unfinished, w4)
                              | (Return u, w4) \<Rightarrow>
                                  animation_loop n max_x max_y frame_dt a' (sleep frame_dt w4))))))"

text \<open>Lines 407-408: \<^verbatim>\<open>finally: xc.restore_cursor()\<close>. The block runs when the loop is
  left; what \<open>restore_cursor\<close> raises replaces the pending exit.\<close>

definition finally_restore :: "unit res \<times> world \<Rightarrow> unit res \<times> world" where
  "finally_restore m =
     (case m of
        (Unfinished, w) \<Rightarrow> (Unfinished, w)
      | (r, w) \<Rightarrow>
          (case restore_cursor w of
             (Raise e, w') \<Rightarrow> (Raise e, w')
           | (Unfinished, w') \<Rightarrow> (Unfinished, w')
           | (Return u, w') \<Rightarrow> (r, w')))"

text \<open>Lines 346-408.\<close>

definition run_cursor_screensaver :: "real \<Rightarrow> nat \<Rightarrow> world \<Rightarrow> unit res \<times> world" where
  "run_cursor_screensaver animation_fps fuel w0 =
     then_do (query_idle_ms (record_event AnimStart w0)) (\<lambda>idle_prev w1.
     then_do (get_virtual_bounds w1) (\<lambda>(width, height) w2.
     then_do (get_cursor_pos w2) (\<lambda>(start_x, start_y) w3.
     then_do (force_arrow_cursor w3) (\<lambda>u w4.
       (case uniform 300 700 (rand w4) of
          (speed, g) \<Rightarrow>
            (case pick_diagonal_velocity (fp_reverses w4) speed False False False False 0 0 g of
               Inl e \<Rightarrow> (Raise e, w4\<lparr>rand := g\<rparr>)
             | Inr ((vx, vy), g') \<Rightarrow>
                 (case fdiv 1 (max 30 animation_fps) of
                    Inl e \<Rightarrow> (Raise e, w4\<lparr>rand := g'\<rparr>)
                  | Inr frame_dt \<Rightarrow>
                      (case perf_counter (w4\<lparr>rand := g'\<rparr>) of
                         (t0, w5) \<Rightarrow>
                           finally_restore
                             (animation_loop fuel (real_of_int (width - 1)) (real_of_int (height - 1))
                                frame_dt
                                \<lparr>pos_x = real_of_int start_x, pos_y = real_of_int start_y,
                                  vel_x = vx, vel_y = vy, idle_prev_ms = idle_prev, prev_t = t0\<rparr>
                                w5)))))))))"

subsection \<open>monitor_idle_and_run and main\<close>

definition get_idle_seconds :: "world \<Rightarrow> real res \<times> world" where
  "get_idle_seconds w = then_do (query_idle_ms w) (\<lambda>ms w'. (Return (real ms / 1000), w'))"

text \<open>Lines 419-427. A keyboard interrupt is an asynchronous signal and is not modelled,
  so the handler of line 428 has nothing to catch.\<close>

fun monitor_idle_and_run :: "nat \<Rightarrow> int \<Rightarrow> world \<Rightarrow> unit res \<times> world" where
  "monitor_idle_and_run 0 threshold_seconds w = (Unfinished, w)"
| "monitor_idle_and_run (Suc n) threshold_seconds w =
     (case hotkey_quit_pressed w of
        (Raise e, w1) \<Rightarrow> (Raise e, w1)
      | (Unfinished, w1) \<Rightarrow> (Unfinished, w1)
      | (Return pressed, w1) \<Rightarrow>
          if pressed then (Raise (SystemExit 0), w1)
          else
            (case get_idle_seconds w1 of
               (Raise e, w2) \<Rightarrow> (Raise e, w2)
             | (Unfinished, w2) \<Rightarrow> (Unfinished, w2)
             | (Return idle_s, w2) \<Rightarrow>
                 if idle_s \<ge> real_of_int threshold_seconds then
                   (case run_cursor_screensaver 120 n w2 of
                      (Raise e, w3) \<Rightarrow> (Raise e, w3)
                    | (Unfinished, w3) \<Rightarrow> (Unfinished, w3)
                    | (Return u, w3) \<Rightarrow> monitor_idle_and_run n threshold_seconds (sleep 0.25 w3))
                 else monitor_idle_and_run n threshold_seconds (sleep 1 w2)))"

text \<open>Line 451: \<^verbatim>\<open>args.minutes * 60.0\<close>. An infinity times 60 is that infinity, a nan
  stays a nan, and the product of two finite doubles is read from the machine.\<close>

definition times_sixty :: "(real \<Rightarrow> real \<Rightarrow> pyfloat) \<Rightarrow> pyfloat \<Rightarrow> pyfloat" where
  "times_sixty mul minutes =
     (case minutes of
        Finite x \<Rightarrow> mul x 60
      | PosInf \<Rightarrow> PosInf
      | NegInf \<Rightarrow> NegInf
      | NaN \<Rightarrow> NaN)"

text \<open>Python's \<^verbatim>\<open>int\<close> on a float raises \<^verbatim>\<open>ValueError\<close> on a nan and
  \<^verbatim>\<open>OverflowError\<close> on an infinity.\<close>

definition int_of_float :: "pyfloat \<Rightarrow> exn + int" where
  "int_of_float x =
     (case x of
        Finite y \<Rightarrow> Inr (py_int y)
      | PosInf \<Rightarrow> Inl OverflowError
      | NegInf \<Rightarrow> Inl OverflowError
      | NaN \<Rightarrow> Inl ValueError)"

text \<open>Line 451.\<close>

definition threshold_of :: "(real \<Rightarrow> real \<Rightarrow> pyfloat) \<Rightarrow> pyfloat \<Rightarrow> exn + int" where
  "threshold_of mul minutes =
     (case int_of_float (times_sixty mul minutes) of
        Inl e \<Rightarrow> Inl e
      | Inr seconds \<Rightarrow> Inr (max 1 seconds))"

text \<open>Lines 450-455, the body of the \<^verbatim>\<open>try\<close> of \<^verbatim>\<open>main\<close>. The first argument is the outcome
  of \<^verbatim>\<open>parse_args(argv)\<close> (line 450): the value of \<^verbatim>\<open>--minutes\<close>, or the \<^verbatim>\<open>SystemExit\<close> that
  \<^verbatim>\<open>argparse\<close> raises on \<^verbatim>\<open>--help\<close> and on a command line it does not accept.\<close>

definition main_body :: "exn + pyfloat \<Rightarrow> nat \<Rightarrow> world \<Rightarrow> int res \<times> world" where
  "main_body parsed fuel w =
     (case parsed of
        Inl e \<Rightarrow> (Raise e, w)
      | Inr minutes \<Rightarrow>
          (case threshold_of (fp_mul w) minutes of
             Inl e \<Rightarrow> (Raise e, w)
           | Inr threshold_seconds \<Rightarrow>
               then_do (run_cursor_screensaver 120 fuel w) (\<lambda>u w1.
               then_do (monitor_idle_and_run fuel threshold_seconds w1) (\<lambda>u w2. (Return 0, w2)))))"

text \<open>Lines 446-457.\<close>

definition main :: "exn + pyfloat \<Rightarrow> nat \<Rightarrow> world \<Rightarrow> int res \<times> world" where
  "main parsed fuel w =
     then_do (xc_open w) (\<lambda>u w1.
       (case main_body parsed fuel w1 of
          (Unfinished, w2) \<Rightarrow> (Unfinished, w2)
        | (r, w2) \<Rightarrow>
            (case xc_close w2 of
               (Raise e, w3) \<Rightarrow> (Raise e, w3)
             | (Unfinished, w3) \<Rightarrow> (Unfinished, w3)
             | (Return u', w3) \<Rightarrow> (r, w3))))"

definition grows :: "(event \<Rightarrow> bool) \<Rightarrow> world \<Rightarrow> world \<Rightarrow> bool" where
  "grows P w w' =
     ((\<exists>es. trace w' = es @ trace w \<and> (\<forall>e \<in> set es. P e))
      \<and> display w' = display w \<and> bounds w' = bounds w)"

definition loop_entry :: "world \<Rightarrow> nat \<Rightarrow> rng \<Rightarrow> world" where
  "loop_entry w n g' =
     w\<lparr>idle_pos := Suc (idle_pos w), trace := ForceArrow # IdleRead n # AnimStart # trace w,
       rand := g', clock_pos := Suc (clock_pos w)\<rparr>"

text \<open>A context that was never opened, on a server whose quit key is always found
  pressed and whose idle time is always 0 ms, on the machine that does not round.\<close>

definition closed_world :: world where
  "closed_world =
     \<lparr>display = None, server = Some 1, hotkey_tape = (\<lambda>i. True), hotkey_pos = 0,
      idle_tape = (\<lambda>i. Some 0), idle_pos = 0, clock_tape = (\<lambda>i. real i / 100), clock_pos = 0,
      rand = (\<lambda>i. 0, 0), bounds = (1920, 1080), pointer = (0, 0), trace = [],
      fp_reverses = exact_fp, fp_mul = exact_mul\<rparr>"

text \<open>
  A trace (most recent event first) is gated by a threshold when every entry into the
  animation comes directly after an idle reading of at least that many seconds.
\<close>

fun gated :: "int \<Rightarrow> event list \<Rightarrow> bool" where
  "gated thr [] = True"
| "gated thr (AnimStart # es) =
     ((case es of IdleRead ms # es' \<Rightarrow> real ms / 1000 \<ge> real_of_int thr | _ \<Rightarrow> False)
      \<and> gated thr es)"
| "gated thr (e # es) = gated thr es"

text \<open>A server whose quit key is pressed at the second poll and whose idle time is 1500 ms.\<close>

definition idle_world :: world where
  "idle_world =
     closed_world\<lparr>display := Some 1, hotkey_tape := (\<lambda>i. i \<noteq> 0), idle_tape := (\<lambda>i. Some 1500)\<rparr>"

text \<open>An open context whose quit key is never pressed; the clock advances by 10 ms per reading.\<close>

definition walk_world :: world where
  "walk_world = closed_world\<lparr>display := Some 1, hotkey_tape := (\<lambda>i. False)\<rparr>"

subsection \<open>Predicates used in the proofs\<close>

definition forced :: "real \<Rightarrow> bool \<Rightarrow> bool \<Rightarrow> bool \<Rightarrow> bool \<Rightarrow> real \<times> real \<Rightarrow> bool" where
  "forced c hl hr ht hb v =
     ((fst v = c \<or> fst v = - c) \<and> (snd v = c \<or> snd v = - c)
      \<and> (case wall_sign hl hr of Some h \<Rightarrow> fst v = h * c | None \<Rightarrow> True)
      \<and> (case wall_sign ht hb of Some h \<Rightarrow> snd v = h * c | None \<Rightarrow> True))"

definition drawn :: "nat \<Rightarrow> rng \<Rightarrow> rng \<Rightarrow> bool" where
  "drawn k g g' = (fst g' = fst g \<and> snd g \<le> snd g' \<and> snd g' \<le> snd g + k)"

definition search_post :: "(real \<times> real \<Rightarrow> bool) \<Rightarrow> nat \<Rightarrow> rng
    \<Rightarrow> exn + ((real \<times> real) option \<times> rng) \<Rightarrow> bool" where
  "search_post P k g x =
     (case x of Inl e \<Rightarrow> False
      | Inr (r, g') \<Rightarrow> (case r of None \<Rightarrow> True | Some v \<Rightarrow> P v) \<and> drawn k g g')"

definition selected :: "fpu \<Rightarrow> real \<Rightarrow> bool \<Rightarrow> bool \<Rightarrow> bool \<Rightarrow> bool \<Rightarrow> real \<Rightarrow> real \<Rightarrow> real
    \<Rightarrow> real \<times> real \<Rightarrow> bool" where
  "selected fp c hl hr ht hb pvx pvy ps v =
     (forced c hl hr ht hb v
      \<and> (ps > 1 / 1000000 \<longrightarrow> \<not> fp pvx pvy (fst v) (snd v) ps c))"

text \<open>
  The double arithmetic of line 334 is accurate for a previous velocity and a component
  magnitude when, on each of the four diagonal candidates, the comparison of line 335 can
  differ from the comparison of the exact quotient with \<^verbatim>\<open>-0.2\<close> only if the exact quotient
  is within 0.05 of \<^verbatim>\<open>-0.2\<close>. Rounding alone moves the quotient by less than \<open>1e-15\<close>;
  an overflowing product is what breaks the accuracy.
\<close>

definition diagonals :: "(real \<times> real) list" where
  "diagonals = [(1, 1), (1, -1), (-1, 1), (-1, -1)]"

definition accurate :: "fpu \<Rightarrow> real \<Rightarrow> real \<Rightarrow> real \<Rightarrow> real \<Rightarrow> bool" where
  "accurate fp pvx pvy ps c =
     list_all (\<lambda>(hx, hy).
        let q = (pvx * (hx * c) + pvy * (hy * c)) / (ps * c) in
        (q \<le> - 0.25 \<longrightarrow> fp pvx pvy (hx * c) (hy * c) ps c)
        \<and> (- 0.15 \<le> q \<longrightarrow> \<not> fp pvx pvy (hx * c) (hy * c) ps c)) diagonals"




section \<open>Properties of the velocity selector\<close>

lemma comp_of_eq: "comp_of s = Inr (max 1 s / sqrt 2)"
  by (simp add: comp_of_def fdiv_def)

lemma comp_pos: "0 < max 1 s / sqrt 2" for s :: real
  by (simp add: max_def)

lemma s_prev_of_cases:
  "s_prev_of a b = Inr None \<or> s_prev_of a b = Inr (Some 1) \<or> s_prev_of a b = Inr (Some (-1))"
  by (simp add: s_prev_of_def Let_def fdiv_def signf_def)

lemma randbelow2_cases:
  "randbelow (Suc (Suc 0)) g = (0, (fst g, Suc (snd g))) \<or> randbelow (Suc (Suc 0)) g = (1, (fst g, Suc (snd g)))"
proof -
  have "fst g (snd g) mod Suc (Suc 0) = 0 \<or> fst g (snd g) mod Suc (Suc 0) = 1" by presburger
  then show ?thesis by (auto simp: randbelow_def)
qed

lemma choice_cases:
  "choice [-1, 1] g = (-1, (fst g, Suc (snd g))) \<or> choice [-1, 1] g = (1, (fst g, Suc (snd g)))"
  using randbelow2_cases [of g] by (auto simp: choice_def)

lemma shuffle_cases:
  "shuffle [1, -1] g = ([-1, 1], (fst g, Suc (snd g))) \<or> shuffle [1, -1] g = ([1, -1], (fst g, Suc (snd g)))"
  using randbelow2_cases [of g] by (auto simp: shuffle_def)

lemma candidates_of_cases:
  assumes "sp = None \<or> sp = Some 1 \<or> sp = Some (-1)"
  shows "fst (candidates_of sp g) = [1, -1] \<or> fst (candidates_of sp g) = [-1, 1]"
  using assms shuffle_cases [of g] by (auto simp: candidates_of_def)

lemma drawn_self [simp]: "drawn k g g" by (simp add: drawn_def)

lemma drawn_adv [simp]: "drawn (Suc 0) g (fst g, Suc (snd g))" by (simp add: drawn_def)

lemma drawn_trans: "drawn a g g1 \<Longrightarrow> drawn b g1 g2 \<Longrightarrow> drawn (a + b) g g2"
  by (auto simp: drawn_def)

lemma drawn_mono: "drawn a g g' \<Longrightarrow> a \<le> b \<Longrightarrow> drawn b g g'"
  by (auto simp: drawn_def)

lemma accept_cases:
  "0 < c \<Longrightarrow> accept fp c pvx pvy ps hx hy = Inr None
     \<or> (accept fp c pvx pvy ps hx hy = Inr (Some (hx * c, hy * c))
        \<and> (ps > 1 / 1000000 \<longrightarrow> \<not> fp pvx pvy (hx * c) (hy * c) ps c))"
  by (simp add: accept_def Let_def fdiv_def)

lemma wall_sign_cases: "wall_sign a b = Some h \<Longrightarrow> h = 1 \<or> h = -1"
  by (auto simp: wall_sign_def split: if_splits)

lemma try_candidate_post:
  assumes c: "0 < c" and s: "s = 1 \<or> s = -1"
  shows "search_post (selected fp c hl hr ht hb pvx pvy ps) 1 g (try_candidate fp c hl hr ht hb pvx pvy ps s g)"
proof -
  have A: "\<And>hx hy. accept fp c pvx pvy ps hx hy = Inr None
     \<or> (accept fp c pvx pvy ps hx hy = Inr (Some (hx * c, hy * c))
        \<and> (ps > 1 / 1000000 \<longrightarrow> \<not> fp pvx pvy (hx * c) (hy * c) ps c))"
    using accept_cases [OF c] by blast
  show ?thesis
  proof (cases "wall_sign hl hr")
    case None
    note hx = this
    show ?thesis
    proof (cases "wall_sign ht hb")
      case None
      from choice_cases [of g] show ?thesis
      proof
        assume ch: "choice [-1, 1] g = (-1, (fst g, Suc (snd g)))"
        from A [of "-1" "s * -1"] s show ?thesis
          by (auto simp: search_post_def try_candidate_def hx None ch selected_def forced_def)
      next
        assume ch: "choice [-1, 1] g = (1, (fst g, Suc (snd g)))"
        from A [of "1" "s * 1"] s show ?thesis
          by (auto simp: search_post_def try_candidate_def hx None ch selected_def forced_def)
      qed
    next
      case (Some hy)
      with A [of "hy / s" hy] s wall_sign_cases [OF Some] show ?thesis
        by (auto simp: search_post_def try_candidate_def hx Some selected_def forced_def fdiv_def)
    qed
  next
    case (Some hx)
    note hx = this
    show ?thesis
    proof (cases "wall_sign ht hb")
      case None
      with A [of hx "s * hx"] s wall_sign_cases [OF hx] show ?thesis
        by (auto simp: search_post_def try_candidate_def hx None selected_def forced_def)
    next
      case (Some hy)
      with A [of hx hy] s wall_sign_cases [OF hx] wall_sign_cases [OF Some] show ?thesis
        by (auto simp: search_post_def try_candidate_def hx Some selected_def forced_def fdiv_def)
    qed
  qed
qed

lemma search_post_bind:
  assumes 1: "search_post P a g x"
    and 2: "\<And>g1. drawn a g g1 \<Longrightarrow> search_post P b g1 (f g1)"
  shows "search_post P (a + b) g
           (case x of Inl e \<Rightarrow> Inl e | Inr (Some v, g') \<Rightarrow> Inr (Some v, g') | Inr (None, g') \<Rightarrow> f g')"
proof (cases x)
  case (Inl e)
  with 1 show ?thesis by (simp add: search_post_def)
next
  case (Inr p)
  obtain r g1 where p: "p = (r, g1)" by (cases p)
  from 1 Inr p have d: "drawn a g g1" by (simp add: search_post_def)
  show ?thesis
  proof (cases r)
    case None
    from 2 [OF d] have "search_post P b g1 (f g1)" .
    then have "search_post P (a + b) g (f g1)"
      using d by (auto simp: search_post_def drawn_def split: sum.splits prod.splits option.splits)
    with Inr p None show ?thesis by simp
  next
    case (Some v)
    with 1 Inr p drawn_mono [OF d, of "a + b"] show ?thesis by (simp add: search_post_def)
  qed
qed

lemma try_candidates_post:
  assumes c: "0 < c" and s: "\<forall>s \<in> set ss. s = 1 \<or> s = -1"
  shows "search_post (selected fp c hl hr ht hb pvx pvy ps) (length ss) g (try_candidates fp c hl hr ht hb pvx pvy ps ss g)"
  using s
proof (induction ss arbitrary: g)
  case Nil
  show ?case by (simp add: search_post_def)
next
  case (Cons s ss)
  then have s1: "s = 1 \<or> s = -1" by simp
  have "search_post (selected fp c hl hr ht hb pvx pvy ps) (1 + length ss) g
          (case try_candidate fp c hl hr ht hb pvx pvy ps s g of Inl e \<Rightarrow> Inl e
           | Inr (Some v, g') \<Rightarrow> Inr (Some v, g')
           | Inr (None, g') \<Rightarrow> try_candidates fp c hl hr ht hb pvx pvy ps ss g')"
    using Cons by (intro search_post_bind try_candidate_post [OF c s1]) simp
  then show ?case by simp
qed

lemma search_rounds_post:
  assumes c: "0 < c" and sp: "sp = None \<or> sp = Some 1 \<or> sp = Some (-1)"
  shows "search_post (selected fp c hl hr ht hb pvx pvy ps) (3 * n) g (search fp n c hl hr ht hb pvx pvy ps sp g)"
proof (induction n arbitrary: g)
  case 0
  show ?case by (simp add: search_post_def)
next
  case (Suc n)
  obtain cs g1 where cg: "candidates_of sp g = (cs, g1)" by (cases "candidates_of sp g")
  from candidates_of_cases [OF sp, of g] cg have cs: "cs = [1, -1] \<or> cs = [-1, 1]" by simp
  have d1: "drawn 1 g g1"
    using cg sp shuffle_cases [of g] by (auto simp: candidates_of_def)
  from cs have len: "length cs = 2" and el: "\<forall>s \<in> set cs. s = 1 \<or> s = -1" by auto
  have "search_post (selected fp c hl hr ht hb pvx pvy ps) (2 + 3 * n) g1
          (case try_candidates fp c hl hr ht hb pvx pvy ps cs g1 of Inl e \<Rightarrow> Inl e
           | Inr (Some v, g') \<Rightarrow> Inr (Some v, g')
           | Inr (None, g') \<Rightarrow> search fp n c hl hr ht hb pvx pvy ps sp g')"
    using try_candidates_post [OF c el, of fp hl hr ht hb pvx pvy ps g1] Suc.IH
    by (intro search_post_bind) (simp_all add: len)
  then have "search_post (selected fp c hl hr ht hb pvx pvy ps) (3 * Suc n) g
          (case try_candidates fp c hl hr ht hb pvx pvy ps cs g1 of Inl e \<Rightarrow> Inl e
           | Inr (Some v, g') \<Rightarrow> Inr (Some v, g')
           | Inr (None, g') \<Rightarrow> search fp n c hl hr ht hb pvx pvy ps sp g')"
    using d1 by (auto simp: search_post_def drawn_def split: sum.splits prod.splits option.splits)
  then show ?case by (simp add: cg)
qed

lemma fallback_sign_cases:
  "(fallback_sign a b g = (1, g) \<or> fallback_sign a b g = (-1, g)
    \<or> fallback_sign a b g = (1, (fst g, Suc (snd g))) \<or> fallback_sign a b g = (-1, (fst g, Suc (snd g))))
   \<and> (case wall_sign a b of Some h \<Rightarrow> fallback_sign a b g = (h, g) | None \<Rightarrow> True)"
  using choice_cases [of g] by (auto simp: fallback_sign_def wall_sign_def)

lemma fallback_post:
  "forced c hl hr ht hb (fst (fallback c hl hr ht hb g)) \<and> drawn 2 g (snd (fallback c hl hr ht hb g))"
proof -
  obtain hx g1 where 1: "fallback_sign hl hr g = (hx, g1)" by (cases "fallback_sign hl hr g")
  obtain hy g2 where 2: "fallback_sign ht hb g1 = (hy, g2)" by (cases "fallback_sign ht hb g1")
  from fallback_sign_cases [of hl hr g] 1
  have a: "hx = 1 \<or> hx = -1" "drawn 1 g g1" "case wall_sign hl hr of Some h \<Rightarrow> hx = h | None \<Rightarrow> True"
    by (auto split: option.splits)
  from fallback_sign_cases [of ht hb g1] 2
  have b: "hy = 1 \<or> hy = -1" "drawn 1 g1 g2" "case wall_sign ht hb of Some h \<Rightarrow> hy = h | None \<Rightarrow> True"
    by (auto split: option.splits)
  from drawn_trans [OF a(2) b(2)] have "drawn 2 g g2" by (simp add: numeral_2_eq_2)
  with a b show ?thesis
    by (auto simp: fallback_def 1 2 forced_def split: option.splits)
qed

lemma pick_unfold:
  "pick_diagonal_velocity fp s hl hr ht hb pvx pvy g =
     (case s_prev_of pvx pvy of
        Inl e \<Rightarrow> Inl e
      | Inr sp \<Rightarrow>
          (case search fp 16 (max 1 s / sqrt 2) hl hr ht hb pvx pvy (hypot pvx pvy) sp g of
             Inl e \<Rightarrow> Inl e
           | Inr (Some v, g') \<Rightarrow> Inr (v, g')
           | Inr (None, g') \<Rightarrow> Inr (fallback (max 1 s / sqrt 2) hl hr ht hb g')))"
  by (simp add: pick_diagonal_velocity_def comp_of_eq)

lemma pick_post:
  "case pick_diagonal_velocity fp s hl hr ht hb pvx pvy g of
     Inl e \<Rightarrow> False
   | Inr (v, g') \<Rightarrow> forced (max 1 s / sqrt 2) hl hr ht hb v \<and> drawn 50 g g'"
proof -
  let ?c = "max 1 s / sqrt 2"
  obtain sp where sp: "s_prev_of pvx pvy = Inr sp" "sp = None \<or> sp = Some 1 \<or> sp = Some (-1)"
    using s_prev_of_cases [of pvx pvy] by auto
  have "search_post (selected fp ?c hl hr ht hb pvx pvy (hypot pvx pvy)) (3 * 16) g
             (search fp 16 ?c hl hr ht hb pvx pvy (hypot pvx pvy) sp g)"
    by (rule search_rounds_post [OF comp_pos sp(2)])
  then have S: "search_post (selected fp ?c hl hr ht hb pvx pvy (hypot pvx pvy)) 48 g
             (search fp 16 ?c hl hr ht hb pvx pvy (hypot pvx pvy) sp g)" by simp
  show ?thesis
  proof (cases "search fp 16 ?c hl hr ht hb pvx pvy (hypot pvx pvy) sp g")
    case (Inl e)
    with S show ?thesis by (simp add: search_post_def)
  next
    case (Inr p)
    obtain r g1 where p: "p = (r, g1)" by (cases p)
    from S Inr p have d: "drawn 48 g g1" by (simp add: search_post_def)
    show ?thesis
    proof (cases r)
      case None
      obtain v g2 where f: "fallback ?c hl hr ht hb g1 = (v, g2)" by (cases "fallback ?c hl hr ht hb g1")
      from fallback_post [of ?c hl hr ht hb g1] f
      have "forced ?c hl hr ht hb v" "drawn 2 g1 g2" by simp_all
      with drawn_trans [OF d, of 2 g2] have "forced ?c hl hr ht hb v \<and> drawn 50 g g2" by simp
      with Inr p None f sp show ?thesis by (simp add: pick_unfold)
    next
      case (Some v)
      with S Inr p have "forced ?c hl hr ht hb v" by (simp add: search_post_def selected_def)
      with drawn_mono [OF d, of 50] Inr p Some sp show ?thesis by (simp add: pick_unfold)
    qed
  qed
qed

lemma pick_result:
  obtains vx vy g' where "pick_diagonal_velocity fp s hl hr ht hb pvx pvy g = Inr ((vx, vy), g')"
    and "forced (max 1 s / sqrt 2) hl hr ht hb (vx, vy)" and "drawn 50 g g'"
proof -
  have P: "case pick_diagonal_velocity fp s hl hr ht hb pvx pvy g of
     Inl e \<Rightarrow> False
   | Inr (v, g') \<Rightarrow> forced (max 1 s / sqrt 2) hl hr ht hb v \<and> drawn 50 g g'"
    by (rule pick_post)
  show ?thesis
  proof (cases "pick_diagonal_velocity fp s hl hr ht hb pvx pvy g")
    case (Inl e)
    with P show ?thesis by simp
  next
    case (Inr p)
    obtain vx vy g' where "p = ((vx, vy), g')" by (cases p) auto
    with Inr P that show ?thesis by simp
  qed
qed

subsection \<open>Magnitude of the returned velocity\<close>

text \<open>
  Claim C2. For every speed magnitude, every combination of edge-hit flags, every previous
  velocity and every pseudo-random tape, \<open>pick_diagonal_velocity\<close> returns a velocity
  \<open>(vx, vy)\<close> whose two components both have the absolute value
  \<open>max(1, speed_mag) / sqrt(2)\<close>.
\<close>
theorem pick_diagonal_velocity_magnitude:
  "\<exists>vx vy g'. pick_diagonal_velocity fp speed_mag hit_left hit_right hit_top hit_bottom prev_vx prev_vy g
       = Inr ((vx, vy), g')
     \<and> \<bar>vx\<bar> = max 1 speed_mag / sqrt 2 \<and> \<bar>vy\<bar> = max 1 speed_mag / sqrt 2"
proof -
  obtain vx vy g' where
    "pick_diagonal_velocity fp speed_mag hit_left hit_right hit_top hit_bottom prev_vx prev_vy g = Inr ((vx, vy), g')"
    and f: "forced (max 1 speed_mag / sqrt 2) hit_left hit_right hit_top hit_bottom (vx, vy)"
    by (rule pick_result)
  moreover from f comp_pos [of speed_mag]
  have "\<bar>vx\<bar> = max 1 speed_mag / sqrt 2 \<and> \<bar>vy\<bar> = max 1 speed_mag / sqrt 2"
    by (auto simp: forced_def)
  ultimately show ?thesis by blast
qed

theorem pick_diagonal_velocity_magnitude_witness:
  "\<exists>vx vy g'. pick_diagonal_velocity exact_fp 300 False False False False 0 0 (\<lambda>i. 0, 0) = Inr ((vx, vy), g')
     \<and> \<bar>vx\<bar> = 300 / sqrt 2 \<and> \<bar>vy\<bar> = 300 / sqrt 2"
  using pick_diagonal_velocity_magnitude [of exact_fp 300 False False False False 0 0 "(\<lambda>i. 0, 0)"] by simp

subsection \<open>Signs forced by the walls\<close>

text \<open>
  Claim C3, amended. \<open>hit_left\<close> gives \<open>vx > 0\<close> and \<open>hit_top\<close> gives
  \<open>vy > 0\<close>; \<open>hit_right\<close> gives \<open>vx < 0\<close> when \<open>hit_left\<close> is not set as well,
  and \<open>hit_bottom\<close> gives \<open>vy < 0\<close> when \<open>hit_top\<close> is not set as well: lines 312-313
  and 341-342 test the left and the top flag first.
\<close>
theorem pick_diagonal_velocity_away_from_wall:
  "\<exists>vx vy g'. pick_diagonal_velocity fp speed_mag hit_left hit_right hit_top hit_bottom prev_vx prev_vy g
       = Inr ((vx, vy), g')
     \<and> (hit_left \<longrightarrow> 0 < vx) \<and> (hit_right \<and> \<not> hit_left \<longrightarrow> vx < 0)
     \<and> (hit_top \<longrightarrow> 0 < vy) \<and> (hit_bottom \<and> \<not> hit_top \<longrightarrow> vy < 0)"
proof -
  obtain vx vy g' where
    "pick_diagonal_velocity fp speed_mag hit_left hit_right hit_top hit_bottom prev_vx prev_vy g = Inr ((vx, vy), g')"
    and f: "forced (max 1 speed_mag / sqrt 2) hit_left hit_right hit_top hit_bottom (vx, vy)"
    by (rule pick_result)
  moreover from f comp_pos [of speed_mag]
  have "(hit_left \<longrightarrow> 0 < vx) \<and> (hit_right \<and> \<not> hit_left \<longrightarrow> vx < 0)
     \<and> (hit_top \<longrightarrow> 0 < vy) \<and> (hit_bottom \<and> \<not> hit_top \<longrightarrow> vy < 0)"
    by (auto simp: forced_def wall_sign_def)
  ultimately show ?thesis by blast
qed

theorem pick_diagonal_velocity_away_from_wall_witness:
  "\<exists>vx vy g'. pick_diagonal_velocity exact_fp 300 False True True False 100 100 (\<lambda>i. 0, 0) = Inr ((vx, vy), g')
     \<and> vx < 0 \<and> 0 < vy"
  using pick_diagonal_velocity_away_from_wall [of exact_fp 300 False True True False 100 100 "(\<lambda>i. 0, 0)"] by simp

text \<open>
  Claim C3 as stated fails when both horizontal flags are set: the left flag wins and the
  returned \<open>vx\<close> is positive although \<open>hit_right\<close> holds.
\<close>

theorem both_horizontal_flags_counterexample:
  "\<not> (\<forall>vx vy g'. pick_diagonal_velocity exact_fp 300 True True False False 0 0 (\<lambda>i. 0, 0) = Inr ((vx, vy), g')
        \<longrightarrow> vx < 0)"
proof -
  obtain vx vy g' where
    p: "pick_diagonal_velocity exact_fp 300 True True False False 0 0 (\<lambda>i. 0, 0) = Inr ((vx, vy), g')"
    and f: "forced (max 1 300 / sqrt 2) True True False False (vx, vy)"
    by (rule pick_result)
  from f have "0 < vx" by (simp add: forced_def wall_sign_def)
  with p show ?thesis by force
qed

lemma mismatch_rejected:
  assumes "wall_sign hl hr = Some hx" and "wall_sign ht hb = Some hy"
    and "s = 1 \<or> s = -1" and "s \<noteq> hy / hx"
  shows "try_candidate fp c hl hr ht hb pvx pvy ps s g = Inr (None, g)"
  using assms wall_sign_cases [OF assms(1)] wall_sign_cases [OF assms(2)]
  by (auto simp: try_candidate_def fdiv_def)

subsection \<open>Corner hits\<close>



subsection \<open>Totality\<close>

text \<open>
  Claim C7. For every input \<open>pick_diagonal_velocity\<close> returns a velocity: no division
  raises, and at most 50 values are drawn from the random tape (16 rounds of at most three
  draws, then at most two draws in the fallback). When the 16 rounds return nothing, the
  result is the fallback's; the fallback forces each wall-constrained sign, draws the free
  ones, and does not look at the previous velocity.
\<close>

theorem pick_diagonal_velocity_total:
  "(\<exists>vx vy g'. pick_diagonal_velocity fp speed_mag hit_left hit_right hit_top hit_bottom prev_vx prev_vy g
        = Inr ((vx, vy), g')
      \<and> fst g' = fst g \<and> snd g \<le> snd g' \<and> snd g' \<le> snd g + 50)
   \<and> (\<forall>s_prev g1.
        s_prev_of prev_vx prev_vy = Inr s_prev
        \<and> search fp 16 (max 1 speed_mag / sqrt 2) hit_left hit_right hit_top hit_bottom
             prev_vx prev_vy (hypot prev_vx prev_vy) s_prev g = Inr (None, g1)
        \<longrightarrow> pick_diagonal_velocity fp speed_mag hit_left hit_right hit_top hit_bottom prev_vx prev_vy g
             = Inr (fallback (max 1 speed_mag / sqrt 2) hit_left hit_right hit_top hit_bottom g1))
   \<and> (\<exists>hx hy g2. fallback c hit_left hit_right hit_top hit_bottom g = ((hx * c, hy * c), g2)
        \<and> (hx = 1 \<or> hx = -1) \<and> (hy = 1 \<or> hy = -1)
        \<and> (hit_left \<longrightarrow> hx = 1) \<and> (hit_right \<and> \<not> hit_left \<longrightarrow> hx = -1)
        \<and> (hit_top \<longrightarrow> hy = 1) \<and> (hit_bottom \<and> \<not> hit_top \<longrightarrow> hy = -1))"
proof -
  obtain vx vy g' where
    p: "pick_diagonal_velocity fp speed_mag hit_left hit_right hit_top hit_bottom prev_vx prev_vy g = Inr ((vx, vy), g')"
    and d: "drawn 50 g g'"
    by (rule pick_result)
  from d have "fst g' = fst g \<and> snd g \<le> snd g' \<and> snd g' \<le> snd g + 50" by (simp add: drawn_def)
  with p have A: "\<exists>vx vy g'. pick_diagonal_velocity fp speed_mag hit_left hit_right hit_top hit_bottom prev_vx prev_vy g
        = Inr ((vx, vy), g')
      \<and> fst g' = fst g \<and> snd g \<le> snd g' \<and> snd g' \<le> snd g + 50" by blast
  have B: "\<forall>s_prev g1.
        s_prev_of prev_vx prev_vy = Inr s_prev
        \<and> search fp 16 (max 1 speed_mag / sqrt 2) hit_left hit_right hit_top hit_bottom
             prev_vx prev_vy (hypot prev_vx prev_vy) s_prev g = Inr (None, g1)
        \<longrightarrow> pick_diagonal_velocity fp speed_mag hit_left hit_right hit_top hit_bottom prev_vx prev_vy g
             = Inr (fallback (max 1 speed_mag / sqrt 2) hit_left hit_right hit_top hit_bottom g1)"
    by (simp add: pick_unfold)
  obtain hx g1 where 1: "fallback_sign hit_left hit_right g = (hx, g1)"
    by (cases "fallback_sign hit_left hit_right g")
  obtain hy g2 where 2: "fallback_sign hit_top hit_bottom g1 = (hy, g2)"
    by (cases "fallback_sign hit_top hit_bottom g1")
  from fallback_sign_cases [of hit_left hit_right g] 1
  have a: "hx = 1 \<or> hx = -1" "(hit_left \<longrightarrow> hx = 1) \<and> (hit_right \<and> \<not> hit_left \<longrightarrow> hx = -1)"
    by (auto simp: wall_sign_def split: if_splits)
  from fallback_sign_cases [of hit_top hit_bottom g1] 2
  have b: "hy = 1 \<or> hy = -1" "(hit_top \<longrightarrow> hy = 1) \<and> (hit_bottom \<and> \<not> hit_top \<longrightarrow> hy = -1)"
    by (auto simp: wall_sign_def split: if_splits)
  have "fallback c hit_left hit_right hit_top hit_bottom g = ((hx * c, hy * c), g2)"
    by (simp add: fallback_def 1 2)
  with a b have C: "\<exists>hx hy g2. fallback c hit_left hit_right hit_top hit_bottom g = ((hx * c, hy * c), g2)
        \<and> (hx = 1 \<or> hx = -1) \<and> (hy = 1 \<or> hy = -1)
        \<and> (hit_left \<longrightarrow> hx = 1) \<and> (hit_right \<and> \<not> hit_left \<longrightarrow> hx = -1)
        \<and> (hit_top \<longrightarrow> hy = 1) \<and> (hit_bottom \<and> \<not> hit_top \<longrightarrow> hy = -1)" by blast
  from A B C show ?thesis by blast
qed

lemma sqrt2_bounds: "1 < sqrt 2 \<and> sqrt 2 < 2"
proof -
  have "sqrt 1 < sqrt 2" by (simp only: real_sqrt_less_iff)
  moreover have "sqrt 2 < sqrt 4" by (simp only: real_sqrt_less_iff)
  moreover have "sqrt 4 = 2" using real_sqrt_abs [of 2] by simp
  ultimately show ?thesis by simp
qed

lemma hypot_diag: "hypot a a = \<bar>a\<bar> * sqrt 2"
proof -
  have "a * a + a * a = a\<^sup>2 * 2" by (simp add: power2_eq_square)
  then show ?thesis by (simp add: hypot_def real_sqrt_mult)
qed



lemma accept_iff:
  assumes c: "0 < c" and ps: "ps > 1 / 1000000"
  shows "accept fp c pvx pvy ps hx hy =
           (if fp pvx pvy (hx * c) (hy * c) ps c then Inr None else Inr (Some (hx * c, hy * c)))"
  using c ps by (simp add: accept_def Let_def fdiv_def)

lemma exact_fp_iff:
  assumes c: "0 < c" and ps0: "0 < ps"
  shows "exact_fp pvx pvy (hx * c) (hy * c) ps c = (pvx * hx + pvy * hy \<le> - 0.2 * ps)"
proof -
  have "(pvx * (hx * c) + pvy * (hy * c)) / (ps * c) = (pvx * hx + pvy * hy) / ps"
    using c ps0 by (simp add: field_simps)
  moreover have "((pvx * hx + pvy * hy) / ps \<le> - 0.2) = (pvx * hx + pvy * hy \<le> - 0.2 * ps)"
    using ps0 by (simp add: field_simps)
  ultimately show ?thesis by (simp add: exact_fp_def)
qed

lemma accept_slow: "ps \<le> 1 / 1000000 \<Longrightarrow> accept fp c pvx pvy ps hx hy = Inr (Some (hx * c, hy * c))"
  by (simp add: accept_def Let_def)

lemma search_result_forced:
  assumes "0 < c" and "sp = None \<or> sp = Some 1 \<or> sp = Some (-1)"
    and "search fp n c hl hr ht hb pvx pvy ps sp g = Inr (Some v, g')"
  shows "selected fp c hl hr ht hb pvx pvy ps v"
proof -
  have "search_post (selected fp c hl hr ht hb pvx pvy ps) (3 * n) g (search fp n c hl hr ht hb pvx pvy ps sp g)"
    by (rule search_rounds_post [OF assms(1,2)])
  with assms(3) show ?thesis by (simp add: search_post_def)
qed

lemma s_prev_of_valid: "s_prev_of a b = Inr sp \<Longrightarrow> sp = None \<or> sp = Some 1 \<or> sp = Some (-1)"
  using s_prev_of_cases [of a b] by auto

subsection \<open>Corner inputs leave nothing to chance\<close>

text \<open>
  Claim C10. When exactly one of \<open>hit_left\<close>, \<open>hit_right\<close> and exactly one of
  \<open>hit_top\<close>, \<open>hit_bottom\<close> is set, two calls with any two previous velocities and any
  two random tapes return the same vector: the wall-forced signs times
  \<open>max(1, speed_mag) / sqrt(2)\<close>. A velocity returned by the search and the velocity of
  the fallback are both that vector.
\<close>

theorem corner_velocity_determined:
  assumes "hit_left \<noteq> hit_right" and "hit_top \<noteq> hit_bottom"
  shows "(\<exists>g1' g2'.
            pick_diagonal_velocity fp speed_mag hit_left hit_right hit_top hit_bottom pvx1 pvy1 g1
              = Inr (((if hit_left then 1 else -1) * (max 1 speed_mag / sqrt 2),
                      (if hit_top then 1 else -1) * (max 1 speed_mag / sqrt 2)), g1')
          \<and> pick_diagonal_velocity fp speed_mag hit_left hit_right hit_top hit_bottom pvx2 pvy2 g2
              = Inr (((if hit_left then 1 else -1) * (max 1 speed_mag / sqrt 2),
                      (if hit_top then 1 else -1) * (max 1 speed_mag / sqrt 2)), g2'))
       \<and> (\<forall>s_prev v g'.
            s_prev_of pvx1 pvy1 = Inr s_prev
            \<and> search fp 16 (max 1 speed_mag / sqrt 2) hit_left hit_right hit_top hit_bottom
                 pvx1 pvy1 (hypot pvx1 pvy1) s_prev g1 = Inr (Some v, g')
            \<longrightarrow> v = ((if hit_left then 1 else -1) * (max 1 speed_mag / sqrt 2),
                     (if hit_top then 1 else -1) * (max 1 speed_mag / sqrt 2)))
       \<and> fst (fallback (max 1 speed_mag / sqrt 2) hit_left hit_right hit_top hit_bottom g1)
           = ((if hit_left then 1 else -1) * (max 1 speed_mag / sqrt 2),
              (if hit_top then 1 else -1) * (max 1 speed_mag / sqrt 2))"
proof -
  let ?c = "max 1 speed_mag / sqrt 2"
  let ?V = "((if hit_left then 1 else -1) * ?c, (if hit_top then 1 else -1) * ?c)"
  have F: "\<And>v. forced ?c hit_left hit_right hit_top hit_bottom v \<Longrightarrow> v = ?V"
    using assms by (auto simp: forced_def wall_sign_def prod_eq_iff split: if_splits)
  obtain vx1 vy1 g1' where
    p1: "pick_diagonal_velocity fp speed_mag hit_left hit_right hit_top hit_bottom pvx1 pvy1 g1 = Inr ((vx1, vy1), g1')"
    and f1: "forced ?c hit_left hit_right hit_top hit_bottom (vx1, vy1)"
    by (rule pick_result)
  obtain vx2 vy2 g2' where
    p2: "pick_diagonal_velocity fp speed_mag hit_left hit_right hit_top hit_bottom pvx2 pvy2 g2 = Inr ((vx2, vy2), g2')"
    and f2: "forced ?c hit_left hit_right hit_top hit_bottom (vx2, vy2)"
    by (rule pick_result)
  from p1 p2 F [OF f1] F [OF f2]
  have A: "\<exists>g1' g2'.
            pick_diagonal_velocity fp speed_mag hit_left hit_right hit_top hit_bottom pvx1 pvy1 g1 = Inr (?V, g1')
          \<and> pick_diagonal_velocity fp speed_mag hit_left hit_right hit_top hit_bottom pvx2 pvy2 g2 = Inr (?V, g2')"
    by simp
  have B: "\<forall>s_prev v g'.
            s_prev_of pvx1 pvy1 = Inr s_prev
            \<and> search fp 16 ?c hit_left hit_right hit_top hit_bottom
                 pvx1 pvy1 (hypot pvx1 pvy1) s_prev g1 = Inr (Some v, g')
            \<longrightarrow> v = ?V"
  proof (intro allI impI, elim conjE)
    fix s_prev v g'
    assume sp: "s_prev_of pvx1 pvy1 = Inr s_prev"
      and se: "search fp 16 ?c hit_left hit_right hit_top hit_bottom
                 pvx1 pvy1 (hypot pvx1 pvy1) s_prev g1 = Inr (Some v, g')"
    from search_result_forced [OF comp_pos s_prev_of_valid [OF sp] se]
    have "forced ?c hit_left hit_right hit_top hit_bottom v" by (simp add: selected_def)
    then show "v = ?V" by (rule F)
  qed
  from fallback_post [of ?c hit_left hit_right hit_top hit_bottom g1]
  have C: "fst (fallback ?c hit_left hit_right hit_top hit_bottom g1) = ?V"
    using F by blast
  from A B C show ?thesis by blast
qed

theorem corner_velocity_determined_witness:
  "\<exists>g1' g2'.
      pick_diagonal_velocity exact_fp 300 True False False True 100 100 (\<lambda>i. 0, 0)
        = Inr ((300 / sqrt 2, - (300 / sqrt 2)), g1')
    \<and> pick_diagonal_velocity exact_fp 300 True False False True (-3) 7 (\<lambda>i. 1, 5)
        = Inr ((300 / sqrt 2, - (300 / sqrt 2)), g2')"
proof -
  have h1: "True \<noteq> False" and h2: "False \<noteq> True" by simp_all
  from corner_velocity_determined [OF h1 h2, of exact_fp 300 100 100 "(\<lambda>i. 0, 0)" "-3" 7 "(\<lambda>i. 1, 5)"]
  show ?thesis by simp
qed

lemma s_prev_of_diag:
  assumes "hypot pvx pvy > 1 / 1000000" and "\<bar>\<bar>pvx\<bar> - \<bar>pvy\<bar>\<bar> \<le> max 1 (0.05 * hypot pvx pvy)"
  shows "s_prev_of pvx pvy = Inr (Some (signf pvy / signf pvx))"
  using assms by (simp add: s_prev_of_def Let_def fdiv_def signf_def)

lemma candidates_of_Some:
  "sp = 1 \<or> sp = -1 \<Longrightarrow> candidates_of (Some sp) g = ([- sp, sp], g)"
  by (auto simp: candidates_of_def)

lemma try_candidates_hit:
  "try_candidate fp c hl hr ht hb pvx pvy ps s g = Inr (Some v, g')
   \<Longrightarrow> try_candidates fp c hl hr ht hb pvx pvy ps (s # ss) g = Inr (Some v, g')"
  by simp

lemma try_candidates_miss:
  "try_candidate fp c hl hr ht hb pvx pvy ps s g = Inr (None, g')
   \<Longrightarrow> try_candidates fp c hl hr ht hb pvx pvy ps (s # ss) g
       = try_candidates fp c hl hr ht hb pvx pvy ps ss g'"
  by simp

lemma search_hit:
  "n = Suc m \<Longrightarrow> candidates_of sp g = (cs, g1)
   \<Longrightarrow> try_candidates fp c hl hr ht hb pvx pvy ps cs g1 = Inr (Some v, g2)
   \<Longrightarrow> search fp n c hl hr ht hb pvx pvy ps sp g = Inr (Some v, g2)"
  by simp

lemma search_miss:
  "candidates_of sp g = (cs, g1)
   \<Longrightarrow> try_candidates fp c hl hr ht hb pvx pvy ps cs g1 = Inr (None, g2)
   \<Longrightarrow> search fp (Suc m) c hl hr ht hb pvx pvy ps sp g = search fp m c hl hr ht hb pvx pvy ps sp g2"
  by simp

lemma accurateD:
  assumes "accurate fp pvx pvy ps c" and "hx = 1 \<or> hx = -1" and "hy = 1 \<or> hy = -1"
  shows "((pvx * (hx * c) + pvy * (hy * c)) / (ps * c) \<le> - 0.25
            \<longrightarrow> fp pvx pvy (hx * c) (hy * c) ps c)
         \<and> (- 0.15 \<le> (pvx * (hx * c) + pvy * (hy * c)) / (ps * c)
            \<longrightarrow> \<not> fp pvx pvy (hx * c) (hy * c) ps c)"
proof -
  from assms(2,3) have "(hx, hy) \<in> set diagonals" by (auto simp: diagonals_def)
  with assms(1) show ?thesis
    unfolding accurate_def list_all_iff Let_def by fast
qed

lemma exact_fp_accurate: "accurate exact_fp pvx pvy ps c"
proof -
  have "\<And>q::real. (q \<le> - 0.25 \<longrightarrow> q \<le> - 0.2) \<and> (- 0.15 \<le> q \<longrightarrow> \<not> q \<le> - 0.2)"
    by simp
  then show ?thesis
    unfolding accurate_def list_all_iff exact_fp_def Let_def
    by blast
qed

lemma exact_quotient:
  fixes c ps :: real
  assumes c: "0 < c" and ps0: "0 < ps"
  shows "(pvx * (hx * c) + pvy * (hy * c)) / (ps * c) = (pvx * hx + pvy * hy) / ps"
  using c ps0 by (simp add: field_simps)

lemma first_candidate_free:
  assumes c: "0 < c" and ps: "hypot pvx pvy > 1 / 1000000"
    and acc: "accurate fp pvx pvy (hypot pvx pvy) c"
    and near: "\<bar>\<bar>pvx\<bar> - \<bar>pvy\<bar>\<bar> \<le> 0.15 * hypot pvx pvy"
    and h: "h = 1 \<or> h = -1"
  shows "accept fp c pvx pvy (hypot pvx pvy) h (- (signf pvy / signf pvx) * h)
           = Inr (Some (h * c, - (signf pvy / signf pvx) * h * c))"
proof -
  let ?ps = "hypot pvx pvy"
  let ?k = "- (signf pvy / signf pvx) * h"
  from ps have ps0: "0 < ?ps" by simp
  have k: "?k = 1 \<or> ?k = -1" using h by (auto simp: signf_def)
  have "- 0.15 * ?ps \<le> pvx * h + pvy * ?k"
    using near h by (auto simp: signf_def abs_if split: if_splits)
  then have "- 0.15 \<le> (pvx * h + pvy * ?k) / ?ps"
    using ps0 by (simp add: field_simps)
  then have "- 0.15 \<le> (pvx * (h * c) + pvy * (?k * c)) / (?ps * c)"
    by (simp only: exact_quotient [OF c ps0])
  with accurateD [OF acc h k] have "\<not> fp pvx pvy (h * c) (?k * c) ?ps c" by blast
  then show ?thesis by (simp add: accept_iff [OF c ps])
qed

lemma hypot_100: "hypot 100 100 = 100 * sqrt 2"
  using hypot_diag [of 100] by simp

lemma hypot_100_bounds: "100 < hypot 100 100 \<and> hypot 100 100 < 200"
proof -
  have "1 < sqrt 2" and "sqrt 2 < 2" using sqrt2_bounds by blast+
  then have "100 < 100 * sqrt 2 \<and> 100 * sqrt 2 < 200" by linarith
  then show ?thesis by (simp only: hypot_100)
qed

lemma hypot_100_fast: "hypot 100 100 > 1 / 1000000"
  using hypot_100_bounds by linarith

lemma near_diagonal_margin:
  assumes "hypot pvx pvy \<ge> 1 / 100000"
    and "\<bar>\<bar>pvx\<bar> - \<bar>pvy\<bar>\<bar> \<le> max 0.99 (0.04 * hypot pvx pvy)"
  shows "hypot pvx pvy > 1 / 1000000
         \<and> \<bar>\<bar>pvx\<bar> - \<bar>pvy\<bar>\<bar> \<le> max 1 (0.05 * hypot pvx pvy)"
  using assms by (auto simp: max_def split: if_splits)

lemma free_bounce_value:
  assumes "hypot pvx pvy \<ge> 1 / 100000"
    and "\<bar>\<bar>pvx\<bar> - \<bar>pvy\<bar>\<bar> \<le> max 0.99 (0.04 * hypot pvx pvy)"
    and "\<bar>\<bar>pvx\<bar> - \<bar>pvy\<bar>\<bar> \<le> 0.15 * hypot pvx pvy"
    and "accurate fp pvx pvy (hypot pvx pvy) (max 1 speed_mag / sqrt 2)"
  shows "pick_diagonal_velocity fp speed_mag False False False False pvx pvy g
           = Inr ((fst (choice [-1, 1] g) * (max 1 speed_mag / sqrt 2),
                   - (signf pvy / signf pvx) * fst (choice [-1, 1] g) * (max 1 speed_mag / sqrt 2)),
                  (fst g, Suc (snd g)))"
proof -
  let ?c = "max 1 speed_mag / sqrt 2"
  let ?sp = "signf pvy / signf pvx"
  let ?ps = "hypot pvx pvy"
  let ?h = "fst (choice [-1, 1] g)"
  have c: "0 < ?c" by (rule comp_pos)
  have sp: "?sp = 1 \<or> ?sp = -1" by (simp add: signf_def)
  from near_diagonal_margin [OF assms(1,2)]
  have ps: "?ps > 1 / 1000000" and nd: "\<bar>\<bar>pvx\<bar> - \<bar>pvy\<bar>\<bar> \<le> max 1 (0.05 * ?ps)"
    by blast+
  have S: "s_prev_of pvx pvy = Inr (Some ?sp)"
    by (rule s_prev_of_diag [OF ps nd])
  have sn: "snd (choice [-1, 1] g) = (fst g, Suc (snd g))" and h: "?h = 1 \<or> ?h = -1"
    using choice_cases [of g] by auto
  have T: "try_candidate fp ?c False False False False pvx pvy ?ps (- ?sp) g
             = Inr (Some (?h * ?c, - ?sp * ?h * ?c), (fst g, Suc (snd g)))"
    using first_candidate_free [OF c ps assms(4,3) h] sn
    by (simp add: try_candidate_def wall_sign_def case_prod_beta)
  have n: "(16::nat) = Suc 15" by simp
  have "search fp 16 ?c False False False False pvx pvy ?ps (Some ?sp) g
          = Inr (Some (?h * ?c, - ?sp * ?h * ?c), (fst g, Suc (snd g)))"
    by (rule search_hit [OF n candidates_of_Some [OF sp] try_candidates_hit [OF T]])
  then show ?thesis by (simp add: pick_unfold S)
qed

lemma hypot_100_margin: "hypot 100 100 \<ge> 1 / 100000"
  using hypot_100_bounds by linarith

subsection \<open>Handedness without walls\<close>

text \<open>
  Claim C1, amended. With no edge flag set, a previous velocity that is near-diagonal with
  a margin (speed at least \<open>1e-5\<close>, components differing by at most \<open>max(0.99, 0.04 * speed)\<close>)
  and whose components differ by at most 0.15 times its speed (every such velocity faster
  than 6.6 px/s, and every exactly diagonal one, so every velocity the selector itself
  returns), and double arithmetic at line 334 that is accurate for this call, the code
  finds the previous velocity near-diagonal and the returned velocity has the handedness
  opposite to the previous one: line 307 puts \<open>s_prev\<close> last in the candidate list, and the
  other handedness, tried first, passes the reversal test.
\<close>

theorem unconstrained_handedness_flips:
  assumes "hypot prev_vx prev_vy \<ge> 1 / 100000"
    and "\<bar>\<bar>prev_vx\<bar> - \<bar>prev_vy\<bar>\<bar> \<le> max 0.99 (0.04 * hypot prev_vx prev_vy)"
    and "\<bar>\<bar>prev_vx\<bar> - \<bar>prev_vy\<bar>\<bar> \<le> 0.15 * hypot prev_vx prev_vy"
    and "accurate fp prev_vx prev_vy (hypot prev_vx prev_vy) (max 1 speed_mag / sqrt 2)"
  shows "s_prev_of prev_vx prev_vy = Inr (Some (signf prev_vy / signf prev_vx))
         \<and> (\<exists>vx vy g'. pick_diagonal_velocity fp speed_mag False False False False prev_vx prev_vy g
                = Inr ((vx, vy), g')
              \<and> signf vy / signf vx = - (signf prev_vy / signf prev_vx))"
proof -
  let ?c = "max 1 speed_mag / sqrt 2"
  let ?sp = "signf prev_vy / signf prev_vx"
  let ?h = "fst (choice [-1, 1] g)"
  have c: "0 < ?c" by (rule comp_pos)
  have h: "?h = 1 \<or> ?h = -1" using choice_cases [of g] by auto
  from near_diagonal_margin [OF assms(1,2)]
  have S: "s_prev_of prev_vx prev_vy = Inr (Some ?sp)"
    by (intro s_prev_of_diag) blast+
  have P: "pick_diagonal_velocity fp speed_mag False False False False prev_vx prev_vy g
          = Inr ((?h * ?c, - ?sp * ?h * ?c), (fst g, Suc (snd g)))"
    by (rule free_bounce_value [OF assms])
  have "signf (- ?sp * ?h * ?c) / signf (?h * ?c) = - ?sp"
    using c h by (auto simp: signf_def zero_le_mult_iff mult_le_0_iff split: if_splits)
  with P S show ?thesis by blast
qed

theorem unconstrained_handedness_flips_witness:
  "s_prev_of 100 100 = Inr (Some 1)
   \<and> (\<exists>vx vy g'. pick_diagonal_velocity exact_fp 300 False False False False 100 100 (\<lambda>i. 0, 0)
          = Inr ((vx, vy), g')
        \<and> signf vy / signf vx = - 1)"
proof -
  have 1: "hypot 100 100 \<ge> 1 / 100000" by (rule hypot_100_margin)
  have 2: "\<bar>\<bar>100\<bar> - \<bar>100\<bar>\<bar> \<le> max 0.99 (0.04 * hypot 100 100)" by simp
  have 3: "\<bar>\<bar>100\<bar> - \<bar>100\<bar>\<bar> \<le> 0.15 * hypot 100 100" using hypot_100_bounds by simp
  have 4: "accurate exact_fp 100 100 (hypot 100 100) (max 1 300 / sqrt 2)"
    by (rule exact_fp_accurate)
  from unconstrained_handedness_flips [OF 1 2 3 4, of "(\<lambda>i. 0, 0)"]
  show ?thesis by (simp add: signf_def)
qed

text \<open>
  Claim C1 as stated fails: previous velocity \<open>(100, 100)\<close> with no edge hit and a
  generator whose draws are all 0 yields \<open>(-comp, +comp)\<close>, of handedness \<open>-1\<close>, where
  the previous handedness is \<open>+1\<close>. The quotient of line 334 is 0 here, on the exact
  machine and in double arithmetic alike.
\<close>

theorem same_handedness_counterexample:
  "pick_diagonal_velocity exact_fp 300 False False False False 100 100 (\<lambda>i. 0, 0)
     = Inr ((- (300 / sqrt 2), 300 / sqrt 2), (\<lambda>i. 0, 1))
   \<and> signf (300 / sqrt 2) / signf (- (300 / sqrt 2)) = - 1
   \<and> signf 100 / signf 100 = 1"
proof -
  have 1: "hypot 100 100 \<ge> 1 / 100000" by (rule hypot_100_margin)
  have 2: "\<bar>\<bar>100\<bar> - \<bar>100\<bar>\<bar> \<le> max 0.99 (0.04 * hypot 100 100)" by simp
  have 3: "\<bar>\<bar>100\<bar> - \<bar>100\<bar>\<bar> \<le> 0.15 * hypot 100 100" using hypot_100_bounds by simp
  have 4: "accurate exact_fp 100 100 (hypot 100 100) (max 1 300 / sqrt 2)"
    by (rule exact_fp_accurate)
  have h: "fst (choice [-1, 1] (\<lambda>i. 0, 0)) = - 1"
    by (simp add: choice_def randbelow_def)
  have P: "pick_diagonal_velocity exact_fp 300 False False False False 100 100 (\<lambda>i. 0, 0)
     = Inr ((- (300 / sqrt 2), 300 / sqrt 2), (\<lambda>i. 0, 1))"
    using free_bounce_value [OF 1 2 3 4, of "(\<lambda>i. 0, 0)"] by (simp add: h signf_def)
  have "signf (300 / sqrt 2) / signf (- (300 / sqrt 2)) = - 1" by (simp add: signf_def)
  moreover have "signf 100 / signf 100 = 1" by (simp add: signf_def)
  ultimately show ?thesis using P by simp
qed

lemma neg_div_sqrt2:
  fixes x :: real
  assumes "x < 0"
  shows "x \<le> x / sqrt 2"
proof -
  have s: "1 \<le> sqrt 2" using sqrt2_bounds by linarith
  have "x * sqrt 2 \<le> x * 1" using assms s by (intro mult_left_mono_neg) simp_all
  then show ?thesis by (simp add: pos_le_divide_eq)
qed





subsection \<open>The reversal test\<close>




lemma hypot_tiny_pos: "0 < hypot (1 / 10000000) (1 / 10000000)"
  by (simp add: hypot_diag)


lemma hypot_m100: "hypot (-100) (-100) = hypot 100 100"
  by (simp add: hypot_def)

lemma s_prev_of_m100: "s_prev_of (-100) (-100) = Inr (Some 1)"
  using s_prev_of_diag [of "-100" "-100"] hypot_100_fast
  by (simp add: signf_def hypot_m100)

lemma search_blocked_corner:
  assumes c: "0 < c"
  shows "search exact_fp n c True False True False (-100) (-100) (hypot (-100) (-100)) (Some 1) g
           = Inr (None, g)"
proof (induction n)
  case 0
  show ?case by simp
next
  case (Suc n)
  have sp: "(1::real) = 1 \<or> (1::real) = -1" by simp
  have ps: "hypot (-100) (-100) > 1 / 1000000" using hypot_100_fast by (simp only: hypot_m100)
  then have ps0: "0 < hypot (-100) (-100)" by simp
  have w: "wall_sign True False = Some 1" by (simp add: wall_sign_def)
  have T1: "try_candidate exact_fp c True False True False (-100) (-100) (hypot (-100) (-100)) (- 1) g
              = Inr (None, g)"
    by (rule mismatch_rejected [OF w w]) simp_all
  have "(-100::real) * 1 + (-100) * 1 \<le> - 0.2 * hypot (-100) (-100)"
    using hypot_100_bounds by (simp add: hypot_m100)
  then have "exact_fp (-100) (-100) (1 * c) (1 * c) (hypot (-100) (-100)) c"
    by (simp only: exact_fp_iff [OF c ps0])
  then have "accept exact_fp c (-100) (-100) (hypot (-100) (-100)) 1 1 = Inr None"
    by (simp add: accept_iff [OF c ps])
  then have T2: "try_candidate exact_fp c True False True False (-100) (-100) (hypot (-100) (-100)) 1 g
              = Inr (None, g)"
    by (simp add: try_candidate_def wall_sign_def fdiv_def)
  have "try_candidates exact_fp c True False True False (-100) (-100) (hypot (-100) (-100)) [- 1, 1] g
          = try_candidates exact_fp c True False True False (-100) (-100) (hypot (-100) (-100)) [1] g"
    by (rule try_candidates_miss [OF T1])
  also have "\<dots> = try_candidates exact_fp c True False True False (-100) (-100) (hypot (-100) (-100)) [] g"
    by (rule try_candidates_miss [OF T2])
  also have "\<dots> = Inr (None, g)" by simp
  finally have "try_candidates exact_fp c True False True False (-100) (-100) (hypot (-100) (-100)) [- 1, 1] g
          = Inr (None, g)" .
  from search_miss [OF candidates_of_Some [OF sp] this] Suc.IH
  show ?case by simp
qed

theorem pick_diagonal_velocity_total_witness:
  "(\<exists>vx vy g'. pick_diagonal_velocity exact_fp 300 True False True False (-100) (-100) (\<lambda>i. 0, 0)
        = Inr ((vx, vy), g')
      \<and> fst g' = (\<lambda>i. 0) \<and> snd g' \<le> 50)
   \<and> pick_diagonal_velocity exact_fp 300 True False True False (-100) (-100) (\<lambda>i. 0, 0)
       = Inr (fallback (max 1 300 / sqrt 2) True False True False (\<lambda>i. 0, 0))
   \<and> (\<exists>g2. fallback 5 True False True False (\<lambda>i. 0, 0) = ((5, 5), g2))"
proof -
  have c: "(0::real) < max 1 300 / sqrt 2" by (rule comp_pos)
  have h: "s_prev_of (-100) (-100) = Inr (Some 1)
      \<and> search exact_fp 16 (max 1 300 / sqrt 2) True False True False (-100) (-100)
          (hypot (-100) (-100)) (Some 1) (\<lambda>i. 0, 0) = Inr (None, (\<lambda>i. 0, 0))"
    using s_prev_of_m100 search_blocked_corner [OF c] by simp
  note T = pick_diagonal_velocity_total [of exact_fp 300 True False True False "-100" "-100" "(\<lambda>i. 0, 0)" 5]
  from T obtain vx vy g' where
    "pick_diagonal_velocity exact_fp 300 True False True False (-100) (-100) (\<lambda>i. 0, 0) = Inr ((vx, vy), g')"
    "fst g' = fst (\<lambda>i::nat. 0::nat, 0::nat)" "snd g' \<le> snd (\<lambda>i::nat. 0::nat, 0::nat) + 50"
    by blast
  then have A: "\<exists>vx vy g'. pick_diagonal_velocity exact_fp 300 True False True False (-100) (-100) (\<lambda>i. 0, 0)
        = Inr ((vx, vy), g') \<and> fst g' = (\<lambda>i. 0) \<and> snd g' \<le> 50"
    by (intro exI [of _ vx] exI [of _ vy] exI [of _ g']) simp
  from T h have B: "pick_diagonal_velocity exact_fp 300 True False True False (-100) (-100) (\<lambda>i. 0, 0)
       = Inr (fallback (max 1 300 / sqrt 2) True False True False (\<lambda>i. 0, 0))"
    by blast
  from T obtain hx hy g2 where
    "fallback 5 True False True False (\<lambda>i. 0, 0) = ((hx * 5, hy * 5), g2)" "hx = 1" "hy = 1"
    by blast
  then have C: "\<exists>g2. fallback 5 True False True False (\<lambda>i. 0, 0) = ((5, 5), g2)"
    by (intro exI [of _ g2]) simp
  from A B C show ?thesis by blast
qed

section \<open>Properties of the animation loop and the idle monitor\<close>

lemma grows_refl [simp]: "grows P w w"
  by (simp add: grows_def)

lemma grows_trans: "grows P w w1 \<Longrightarrow> grows P w1 w2 \<Longrightarrow> grows P w w2"
  by (auto simp: grows_def)

lemma grows_record_event: "P e \<Longrightarrow> grows P w (record_event e w)"
  by (simp add: grows_def record_event_def)

lemma grows_mono: "grows P w w' \<Longrightarrow> (\<And>e. P e \<Longrightarrow> Q e) \<Longrightarrow> grows Q w w'"
  by (auto simp: grows_def)

lemma grows_rand [simp]: "grows P w (w\<lparr>rand := g\<rparr>)"
  by (simp add: grows_def)

lemma hotkey_grows: "hotkey_quit_pressed w = (r, w') \<Longrightarrow> grows P w w'"
  by (auto simp: hotkey_quit_pressed_def grows_def split: if_splits)

lemma query_idle_grows:
  "query_idle_ms w = (r, w') \<Longrightarrow> (\<And>n. P (IdleRead n)) \<Longrightarrow> grows P w w'"
  by (auto simp: query_idle_ms_def grows_def record_event_def split: if_splits option.splits)

lemma query_idle_Return:
  "query_idle_ms w = (Return n, w') \<Longrightarrow> trace w' = IdleRead n # trace w"
  by (auto simp: query_idle_ms_def record_event_def split: if_splits option.splits)

lemma query_idle_not_Unfinished [simp]: "query_idle_ms w \<noteq> (Unfinished, w')"
  by (auto simp: query_idle_ms_def split: if_splits option.splits)

lemma hotkey_not_Unfinished [simp]: "hotkey_quit_pressed w \<noteq> (Unfinished, w')"
  by (auto simp: hotkey_quit_pressed_def split: if_splits)

lemma perf_counter_grows: "perf_counter w = (t, w') \<Longrightarrow> grows P w w'"
  by (auto simp: perf_counter_def grows_def)

lemma set_cursor_pos_grows:
  "set_cursor_pos x y w = (r, w') \<Longrightarrow> P (WarpPointer x y) \<Longrightarrow> grows P w w'"
  by (auto simp: set_cursor_pos_def grows_def record_event_def split: if_splits)

lemma sleep_grows: "P (Sleep d) \<Longrightarrow> grows P w (sleep d w)"
  by (simp add: sleep_def grows_record_event)

lemma animation_loop_grows:
  assumes idle: "\<And>n. P (IdleRead n)" and sl: "\<And>d. P (Sleep d)"
    and warp: "\<And>fp a now g a' g'. frame_update fp max_x max_y a now g = Inr (a', g')
                 \<Longrightarrow> P (WarpPointer (py_round (pos_x a')) (py_round (pos_y a')))"
  shows "animation_loop n max_x max_y frame_dt a w = (r, w') \<Longrightarrow> grows P w w'"
proof (induction n arbitrary: a w)
  case 0
  then show ?case by simp
next
  case (Suc n)
  obtain r1 w1 where h: "hotkey_quit_pressed w = (r1, w1)" by (cases "hotkey_quit_pressed w")
  have g1: "grows P w w1" by (rule hotkey_grows [OF h])
  show ?case
  proof (cases r1)
    case (Raise e)
    with Suc.prems h g1 show ?thesis by simp
  next
    case Unfinished
    with h show ?thesis by simp
  next
    case (Return pressed)
    show ?thesis
    proof (cases pressed)
      case True
      with Suc.prems h Return g1 show ?thesis by simp
    next
      case False
      obtain r2 w2 where q: "query_idle_ms w1 = (r2, w2)" by (cases "query_idle_ms w1")
      have "grows P w1 w2" using q idle by (rule query_idle_grows)
      with g1 have g2: "grows P w w2" by (rule grows_trans)
      show ?thesis
      proof (cases r2)
        case (Raise e)
        with Suc.prems h Return False q g2 show ?thesis by simp
      next
        case Unfinished
        with q show ?thesis by simp
      next
        case R2: (Return idle_ms)
        show ?thesis
        proof (cases "idle_ms + 50 < idle_prev_ms a")
          case True
          with Suc.prems h Return False q R2 g2 show ?thesis by simp
        next
          case nb: False
          obtain now w3 where p: "perf_counter w2 = (now, w3)" by (cases "perf_counter w2")
          have g3: "grows P w w3" by (rule grows_trans [OF g2 perf_counter_grows [OF p]])
          show ?thesis
          proof (cases "frame_update (fp_reverses w3) max_x max_y (a\<lparr>idle_prev_ms := idle_ms\<rparr>) now (rand w3)")
            case (Inl e)
            with Suc.prems h Return False q R2 nb p g3 show ?thesis by simp
          next
            case (Inr ag)
            obtain a' g' where ag: "ag = (a', g')" by (cases ag)
            let ?x = "py_round (pos_x a')" and ?y = "py_round (pos_y a')"
            have pw: "P (WarpPointer ?x ?y)" using warp Inr ag by blast
            obtain r4 w4 where s: "set_cursor_pos ?x ?y (w3\<lparr>rand := g'\<rparr>) = (r4, w4)"
              by (cases "set_cursor_pos ?x ?y (w3\<lparr>rand := g'\<rparr>)")
            have "grows P (w3\<lparr>rand := g'\<rparr>) w4" using s pw by (rule set_cursor_pos_grows)
            with grows_trans [OF g3 grows_rand] have g4: "grows P w w4" by (rule grows_trans)
            show ?thesis
            proof (cases r4)
              case (Raise e)
              with Suc.prems h Return False q R2 nb p Inr ag s g4 show ?thesis by simp
            next
              case Unfinished
              with Suc.prems h Return False q R2 nb p Inr ag s g4 show ?thesis by simp
            next
              case R4: (Return u)
              from Suc.prems h Return False q R2 nb p Inr ag s R4
              have "animation_loop n max_x max_y frame_dt a' (sleep frame_dt w4) = (r, w')" by simp
              from Suc.IH [OF this] have g5: "grows P (sleep frame_dt w4) w'" .
              have "grows P w4 (sleep frame_dt w4)" using sl by (rule sleep_grows)
              with g4 have "grows P w (sleep frame_dt w4)" by (rule grows_trans)
              then show ?thesis using g5 by (rule grows_trans)
            qed
          qed
        qed
      qed
    qed
  qed
qed

lemma fdiv_frame_dt: "fdiv 1 (max 30 fps) = Inr (1 / max 30 fps)"
  by (simp add: fdiv_def max_def)

lemma run_cursor_screensaver_unfold:
  assumes d: "display w = Some d" and idle: "idle_tape w (idle_pos w) = Some n"
    and p: "pick_diagonal_velocity (fp_reverses w) (fst (uniform 300 700 (rand w))) False False False False 0 0
             (snd (uniform 300 700 (rand w))) = Inr ((vx, vy), g')"
  shows "run_cursor_screensaver fps fuel w
        = finally_restore (animation_loop fuel (real_of_int (fst (bounds w) - 1))
             (real_of_int (snd (bounds w) - 1)) (1 / max 30 fps)
             \<lparr>pos_x = real_of_int (fst (pointer w)), pos_y = real_of_int (snd (pointer w)),
               vel_x = vx, vel_y = vy, idle_prev_ms = n, prev_t = clock_tape w (clock_pos w)\<rparr>
             (loop_entry w n g'))"
  using d idle p
  by (simp add: run_cursor_screensaver_def then_do_def query_idle_ms_def get_virtual_bounds_def
      get_cursor_pos_def force_arrow_cursor_def perf_counter_def record_event_def fdiv_frame_dt
      loop_entry_def case_prod_beta)

lemma run_cursor_screensaver_cases:
  assumes run: "run_cursor_screensaver fps fuel w = (r, w')"
  obtains (early) e where "r = Raise e" and "trace w' = AnimStart # trace w"
      and "display w' = display w" and "bounds w' = bounds w"
  | (loop) n a dt g' where "display w \<noteq> None" and "idle_tape w (idle_pos w) = Some n"
      and "finally_restore (animation_loop fuel (real_of_int (fst (bounds w) - 1))
             (real_of_int (snd (bounds w) - 1)) dt a (loop_entry w n g')) = (r, w')"
proof (cases "display w")
  case None
  with run have "r = Raise AssertionError" "trace w' = AnimStart # trace w" "display w' = display w"
      "bounds w' = bounds w"
    by (auto simp: run_cursor_screensaver_def then_do_def query_idle_ms_def record_event_def)
  then show ?thesis by (rule early)
next
  case (Some d)
  show ?thesis
  proof (cases "idle_tape w (idle_pos w)")
    case None
    with run Some have "r = Raise OSError" "trace w' = AnimStart # trace w" "display w' = display w"
        "bounds w' = bounds w"
      by (auto simp: run_cursor_screensaver_def then_do_def query_idle_ms_def record_event_def)
    then show ?thesis by (rule early)
  next
    case (Some n)
    obtain vx vy g' where p: "pick_diagonal_velocity (fp_reverses w) (fst (uniform 300 700 (rand w))) False False False False 0 0
             (snd (uniform 300 700 (rand w))) = Inr ((vx, vy), g')"
      by (rule pick_result)
    from run run_cursor_screensaver_unfold [OF \<open>display w = Some d\<close> Some p, of fps fuel]
    have "finally_restore (animation_loop fuel (real_of_int (fst (bounds w) - 1))
             (real_of_int (snd (bounds w) - 1)) (1 / max 30 fps)
             \<lparr>pos_x = real_of_int (fst (pointer w)), pos_y = real_of_int (snd (pointer w)),
               vel_x = vx, vel_y = vy, idle_prev_ms = n, prev_t = clock_tape w (clock_pos w)\<rparr>
             (loop_entry w n g')) = (r, w')" by simp
    with \<open>display w = Some d\<close> Some show ?thesis by (intro loop) simp_all
  qed
qed

lemma finally_restore_open:
  "display w \<noteq> None \<Longrightarrow> r \<noteq> Unfinished \<Longrightarrow> finally_restore (r, w) = (r, record_event RestoreCursor w)"
  by (cases r) (auto simp: finally_restore_def restore_cursor_def)

lemma finally_restore_Unfinished [simp]: "finally_restore (Unfinished, w) = (Unfinished, w)"
  by (simp add: finally_restore_def)

subsection \<open>The cursor shape is restored when the loop is left\<close>




lemma animation_loop_quit:
  "display w \<noteq> None \<Longrightarrow> hotkey_tape w (hotkey_pos w)
   \<Longrightarrow> animation_loop (Suc k) max_x max_y dt a w
       = (Raise (SystemExit 0), w\<lparr>hotkey_pos := Suc (hotkey_pos w)\<rparr>)"
  by (simp add: hotkey_quit_pressed_def)

lemma run_quit_at_once:
  assumes d: "display w = Some d" and idle: "idle_tape w (idle_pos w) = Some n"
    and hk: "hotkey_tape w (hotkey_pos w)"
  shows "\<exists>w'. run_cursor_screensaver fps (Suc k) w = (Raise (SystemExit 0), w')
           \<and> trace w' = RestoreCursor # ForceArrow # IdleRead n # AnimStart # trace w
           \<and> display w' = Some d"
proof -
  obtain vx vy g' where p: "pick_diagonal_velocity (fp_reverses w) (fst (uniform 300 700 (rand w))) False False False False 0 0
             (snd (uniform 300 700 (rand w))) = Inr ((vx, vy), g')"
    by (rule pick_result)
  let ?w5 = "loop_entry w n g'"
  have d5: "display ?w5 \<noteq> None" and h5: "hotkey_tape ?w5 (hotkey_pos ?w5)"
    using d hk by (simp_all add: loop_entry_def)
  have "run_cursor_screensaver fps (Suc k) w
      = finally_restore (Raise (SystemExit 0), ?w5\<lparr>hotkey_pos := Suc (hotkey_pos ?w5)\<rparr>)"
    by (simp only: run_cursor_screensaver_unfold [OF d idle p] animation_loop_quit [OF d5 h5])
  also have "\<dots> = (Raise (SystemExit 0), record_event RestoreCursor (?w5\<lparr>hotkey_pos := Suc (hotkey_pos ?w5)\<rparr>))"
    using d5 by (intro finally_restore_open) simp_all
  finally show ?thesis using d by (simp add: record_event_def loop_entry_def)
qed


lemma gated_no_start: "AnimStart \<notin> set es \<Longrightarrow> gated thr es"
  by (induction thr es rule: gated.induct) auto

lemma gated_append: "gated thr xs \<Longrightarrow> gated thr ys \<Longrightarrow> gated thr (xs @ ys)"
proof (induction thr xs rule: gated.induct)
  case (2 thr es)
  then show ?case by (cases es) (auto split: event.splits)
qed auto

lemma gated_start:
  "real ms / 1000 \<ge> real_of_int thr \<Longrightarrow> gated thr [AnimStart, IdleRead ms]"
  by simp

lemma animation_loop_no_start:
  assumes "animation_loop n max_x max_y dt a w = (r, w')"
  shows "\<exists>es. trace w' = es @ trace w \<and> AnimStart \<notin> set es"
proof -
  have "grows (\<lambda>e. e \<noteq> AnimStart) w w'"
    by (rule animation_loop_grows [OF _ _ _ assms]) simp_all
  then show ?thesis by (auto simp: grows_def)
qed

lemma finally_restore_trace:
  assumes "finally_restore (r0, w0) = (r, w')"
  shows "trace w' = trace w0 \<or> trace w' = RestoreCursor # trace w0"
  using assms
  by (cases r0) (auto simp: finally_restore_def restore_cursor_def record_event_def split: if_splits)

lemma run_cursor_screensaver_trace:
  assumes "run_cursor_screensaver fps fuel w = (r, w')"
  shows "\<exists>es. trace w' = es @ AnimStart # trace w \<and> AnimStart \<notin> set es"
  using assms
proof (cases rule: run_cursor_screensaver_cases)
  case (early e)
  then show ?thesis by simp
next
  case (loop n a dt g')
  let ?mx = "real_of_int (fst (bounds w) - 1)" and ?my = "real_of_int (snd (bounds w) - 1)"
  obtain r6 w6 where l: "animation_loop fuel ?mx ?my dt a (loop_entry w n g') = (r6, w6)"
    by (cases "animation_loop fuel ?mx ?my dt a (loop_entry w n g')")
  from animation_loop_no_start [OF l] obtain es where
    es: "trace w6 = es @ trace (loop_entry w n g')" "AnimStart \<notin> set es" by blast
  from loop(3) l have "trace w' = trace w6 \<or> trace w' = RestoreCursor # trace w6"
    by (auto dest: finally_restore_trace)
  then show ?thesis
  proof
    assume "trace w' = trace w6"
    with es have "trace w' = (es @ [ForceArrow, IdleRead n]) @ AnimStart # trace w
        \<and> AnimStart \<notin> set (es @ [ForceArrow, IdleRead n])"
      by (simp add: loop_entry_def)
    then show ?thesis by blast
  next
    assume "trace w' = RestoreCursor # trace w6"
    with es have "trace w' = (RestoreCursor # es @ [ForceArrow, IdleRead n]) @ AnimStart # trace w
        \<and> AnimStart \<notin> set (RestoreCursor # es @ [ForceArrow, IdleRead n])"
      by (simp add: loop_entry_def)
    then show ?thesis by blast
  qed
qed

lemma get_idle_seconds_cases:
  assumes "get_idle_seconds w = (r, w')"
  obtains (fail) e where "r = Raise e" and "trace w' = trace w"
  | (ok) ms where "r = Return (real ms / 1000)" and "trace w' = IdleRead ms # trace w"
  using assms
  by (auto simp: get_idle_seconds_def then_do_def query_idle_ms_def record_event_def
      split: if_splits option.splits)

lemma hotkey_trace: "hotkey_quit_pressed w = (r, w') \<Longrightarrow> trace w' = trace w"
  by (auto simp: hotkey_quit_pressed_def split: if_splits)

lemma monitor_gated:
  "monitor_idle_and_run fuel thr w = (r, w')
   \<Longrightarrow> \<exists>es. trace w' = es @ trace w \<and> gated thr es"
proof (induction fuel arbitrary: w)
  case 0
  then show ?case by simp
next
  case (Suc n)
  obtain r1 w1 where h: "hotkey_quit_pressed w = (r1, w1)" by (cases "hotkey_quit_pressed w")
  have t1: "trace w1 = trace w" by (rule hotkey_trace [OF h])
  show ?case
  proof (cases r1)
    case (Raise e)
    with Suc.prems h t1 show ?thesis by simp
  next
    case Unfinished
    with h show ?thesis by simp
  next
    case (Return pressed)
    show ?thesis
    proof (cases pressed)
      case True
      with Suc.prems h Return t1 show ?thesis by simp
    next
      case False
      obtain r2 w2 where q: "get_idle_seconds w1 = (r2, w2)" by (cases "get_idle_seconds w1")
      from q show ?thesis
      proof (cases rule: get_idle_seconds_cases)
        case (fail e)
        with Suc.prems h Return False q t1 show ?thesis by simp
      next
        case (ok ms)
        note t2 = ok(2)
        show ?thesis
        proof (cases "real ms / 1000 \<ge> real_of_int thr")
          case ge: True
          obtain r3 w3 where run: "run_cursor_screensaver 120 n w2 = (r3, w3)"
            by (cases "run_cursor_screensaver 120 n w2")
          from run_cursor_screensaver_trace [OF run] obtain es1 where
            es1: "trace w3 = es1 @ AnimStart # trace w2" "AnimStart \<notin> set es1" by blast
          have g1: "gated thr (es1 @ [AnimStart, IdleRead ms])"
            by (rule gated_append [OF gated_no_start [OF es1(2)] gated_start [OF ge]])
          have t3: "trace w3 = (es1 @ [AnimStart, IdleRead ms]) @ trace w"
            using es1 t2 t1 by simp
          show ?thesis
          proof (cases r3)
            case (Raise e)
            with Suc.prems h Return False q ok ge run have "w' = w3" by simp
            with t3 g1 show ?thesis by blast
          next
            case Unfinished
            with Suc.prems h Return False q ok ge run have "w' = w3" by simp
            with t3 g1 show ?thesis by blast
          next
            case R3: (Return u)
            with Suc.prems h Return False q ok ge run
            have "monitor_idle_and_run n thr (sleep 0.25 w3) = (r, w')" by simp
            from Suc.IH [OF this] obtain es2 where
              es2: "trace w' = es2 @ trace (sleep 0.25 w3)" "gated thr es2" by blast
            have "gated thr (es2 @ Sleep 0.25 # es1 @ [AnimStart, IdleRead ms])"
              using gated_append [OF es2(2), of "Sleep 0.25 # es1 @ [AnimStart, IdleRead ms]"] g1
              by simp
            moreover have "trace w' = (es2 @ Sleep 0.25 # es1 @ [AnimStart, IdleRead ms]) @ trace w"
              using es2(1) t3 by (simp add: sleep_def record_event_def)
            ultimately show ?thesis by blast
          qed
        next
          case lt: False
          with Suc.prems h Return False q ok
          have "monitor_idle_and_run n thr (sleep 1 w2) = (r, w')" by simp
          from Suc.IH [OF this] obtain es2 where
            es2: "trace w' = es2 @ trace (sleep 1 w2)" "gated thr es2" by blast
          have "gated thr (es2 @ [Sleep 1, IdleRead ms])"
            using gated_append [OF es2(2), of "[Sleep 1, IdleRead ms]"] by simp
          moreover have "trace w' = (es2 @ [Sleep 1, IdleRead ms]) @ trace w"
            using es2(1) t2 t1 by (simp add: sleep_def record_event_def)
          ultimately show ?thesis by blast
        qed
      qed
    qed
  qed
qed

lemma xc_close_trace:
  "xc_close w = (r, w') \<Longrightarrow> r = Return () \<and> (\<exists>es. trace w' = es @ trace w)"
  by (auto simp: xc_close_def record_event_def split: if_splits)

lemma main_body_trace:
  assumes "main_body (Inr minutes) fuel w = (r, w')"
    and thr: "threshold_of (fp_mul w) minutes = Inr thr"
  shows "\<exists>es. trace w' = es @ AnimStart # trace w"
proof -
  obtain r1 w1 where run: "run_cursor_screensaver 120 fuel w = (r1, w1)"
    by (cases "run_cursor_screensaver 120 fuel w")
  from run_cursor_screensaver_trace [OF run] obtain es1 where
    es1: "trace w1 = es1 @ AnimStart # trace w" by blast
  show ?thesis
  proof (cases r1)
    case (Return u)
    obtain r2 w2 where m: "monitor_idle_and_run fuel thr w1 = (r2, w2)"
      by (cases "monitor_idle_and_run fuel thr w1")
    from monitor_gated [OF m] obtain es2 where es2: "trace w2 = es2 @ trace w1" by blast
    from assms run Return m have "w' = w2"
      by (cases r2) (simp_all add: main_body_def then_do_def)
    with es1 es2 have "trace w' = (es2 @ es1) @ AnimStart # trace w" by simp
    then show ?thesis by blast
  next
    case (Raise e)
    with assms run have "w' = w1" by (simp add: main_body_def then_do_def)
    with es1 show ?thesis by blast
  next
    case Unfinished
    with assms run have "w' = w1" by (simp add: main_body_def then_do_def)
    with es1 show ?thesis by blast
  qed
qed

lemma main_starts_animation:
  assumes "display w = None" and "server w = Some d"
    and thr: "threshold_of (fp_mul w) minutes = Inr thr"
  shows "\<exists>es. trace (snd (main (Inr minutes) fuel w)) = es @ AnimStart # trace w"
proof -
  let ?w1 = "w\<lparr>display := Some d\<rparr>"
  obtain r2 w2 where b: "main_body (Inr minutes) fuel ?w1 = (r2, w2)"
    by (cases "main_body (Inr minutes) fuel ?w1")
  from thr have "threshold_of (fp_mul ?w1) minutes = Inr thr" by simp
  from main_body_trace [OF b this] obtain es where es: "trace w2 = es @ AnimStart # trace w" by auto
  obtain r3 w3 where c: "xc_close w2 = (r3, w3)" by (cases "xc_close w2")
  from xc_close_trace [OF c] obtain es3 where es3: "r3 = Return ()" "trace w3 = es3 @ trace w2"
    by blast
  have "snd (main (Inr minutes) fuel w) = w2 \<or> snd (main (Inr minutes) fuel w) = w3"
    using assms(1,2) b c es3(1) by (cases r2) (simp_all add: main_def then_do_def xc_open_def)
  then show ?thesis
  proof
    assume "snd (main (Inr minutes) fuel w) = w2"
    with es show ?thesis by blast
  next
    assume "snd (main (Inr minutes) fuel w) = w3"
    with es es3 have "trace (snd (main (Inr minutes) fuel w)) = (es3 @ es) @ AnimStart # trace w"
      by simp
    then show ?thesis by blast
  qed
qed

lemma main_raises_early:
  assumes "display w = None" and "server w = Some d"
    and early: "parsed = Inl e \<or> (\<exists>m. parsed = Inr m \<and> threshold_of (fp_mul w) m = Inl e)"
  shows "fst (main parsed fuel w) = Raise e
         \<and> trace (snd (main parsed fuel w)) = CloseDisplay # RestoreCursor # trace w"
proof -
  let ?w1 = "w\<lparr>display := Some d\<rparr>"
  have b: "main_body parsed fuel ?w1 = (Raise e, ?w1)"
    using early by (auto simp: main_body_def)
  have "main parsed fuel w
      = (Raise e, (record_event CloseDisplay (record_event RestoreCursor ?w1))\<lparr>display := None\<rparr>)"
    using assms(1,2) b by (simp add: main_def then_do_def xc_open_def xc_close_def)
  then show ?thesis by (simp add: record_event_def)
qed

subsection \<open>When the animation starts\<close>

text \<open>
  Claim C6, amended. Inside \<open>monitor_idle_and_run\<close> every entry into
  \<open>run_cursor_screensaver\<close> comes directly after an idle query that returned at least the
  threshold, in seconds. \<open>main\<close> however enters the animation once at startup, before any
  idle query: on a context that opens, when \<open>parse_args\<close> returns and the conversion of
  line 451 yields a threshold, the first event of \<open>main\<close> is that entry. When \<open>parse_args\<close>
  raises its \<open>SystemExit\<close>, or the conversion of line 451 raises (\<open>ValueError\<close> on a nan,
  \<open>OverflowError\<close> on an infinite product), \<open>main\<close> exits with that exception and has only
  closed the display: it never entered the animation.
\<close>

theorem animation_gated_in_monitor:
  assumes "monitor_idle_and_run fuel threshold_seconds w = (r, w')"
  shows "(\<exists>es. trace w' = es @ trace w \<and> gated threshold_seconds es)
         \<and> (display w0 = None \<and> server w0 \<noteq> None \<and> threshold_of (fp_mul w0) minutes = Inr thr
              \<longrightarrow> (\<exists>es. trace (snd (main (Inr minutes) fuel0 w0)) = es @ AnimStart # trace w0))
         \<and> (display w0 = None \<and> server w0 \<noteq> None
              \<and> (parsed = Inl e \<or> (\<exists>m. parsed = Inr m \<and> threshold_of (fp_mul w0) m = Inl e))
              \<longrightarrow> fst (main parsed fuel0 w0) = Raise e
                  \<and> trace (snd (main parsed fuel0 w0)) = CloseDisplay # RestoreCursor # trace w0)"
proof -
  have A: "\<exists>es. trace w' = es @ trace w \<and> gated threshold_seconds es"
    by (rule monitor_gated [OF assms])
  have B: "display w0 = None \<and> server w0 \<noteq> None \<and> threshold_of (fp_mul w0) minutes = Inr thr
              \<longrightarrow> (\<exists>es. trace (snd (main (Inr minutes) fuel0 w0)) = es @ AnimStart # trace w0)"
    by (auto intro: main_starts_animation)
  have C: "display w0 = None \<and> server w0 \<noteq> None
              \<and> (parsed = Inl e \<or> (\<exists>m. parsed = Inr m \<and> threshold_of (fp_mul w0) m = Inl e))
              \<longrightarrow> fst (main parsed fuel0 w0) = Raise e
                  \<and> trace (snd (main parsed fuel0 w0)) = CloseDisplay # RestoreCursor # trace w0"
  proof
    assume h: "display w0 = None \<and> server w0 \<noteq> None
              \<and> (parsed = Inl e \<or> (\<exists>m. parsed = Inr m \<and> threshold_of (fp_mul w0) m = Inl e))"
    then obtain d where d: "server w0 = Some d" by auto
    from h have 1: "display w0 = None"
      and 3: "parsed = Inl e \<or> (\<exists>m. parsed = Inr m \<and> threshold_of (fp_mul w0) m = Inl e)"
      by simp_all
    show "fst (main parsed fuel0 w0) = Raise e
        \<and> trace (snd (main parsed fuel0 w0)) = CloseDisplay # RestoreCursor # trace w0"
      by (rule main_raises_early [OF 1 d 3])
  qed
  from A B C show ?thesis by (intro conjI)
qed

lemma monitor_idle_world:
  "\<exists>w'. monitor_idle_and_run 2 1 idle_world = (Raise (SystemExit 0), w')
      \<and> trace w' = [RestoreCursor, ForceArrow, IdleRead 1500, AnimStart, IdleRead 1500]"
proof -
  let ?w1 = "idle_world\<lparr>hotkey_pos := Suc 0\<rparr>"
  let ?w2 = "?w1\<lparr>trace := [IdleRead 1500], idle_pos := Suc 0\<rparr>"
  have h: "hotkey_quit_pressed idle_world = (Return False, ?w1)"
    by (simp add: hotkey_quit_pressed_def idle_world_def closed_world_def)
  have q: "get_idle_seconds ?w1 = (Return (real 1500 / 1000), ?w2)"
    by (simp add: get_idle_seconds_def then_do_def query_idle_ms_def record_event_def idle_world_def
        closed_world_def)
  have "\<exists>w'. run_cursor_screensaver 120 (Suc 0) ?w2 = (Raise (SystemExit 0), w')
           \<and> trace w' = RestoreCursor # ForceArrow # IdleRead 1500 # AnimStart # trace ?w2
           \<and> display w' = Some 1"
    by (rule run_quit_at_once) (simp_all add: idle_world_def closed_world_def)
  then obtain w' where run: "run_cursor_screensaver 120 (Suc 0) ?w2 = (Raise (SystemExit 0), w')"
    and t: "trace w' = [RestoreCursor, ForceArrow, IdleRead 1500, AnimStart, IdleRead 1500]"
    by auto
  have n: "(2::nat) = Suc (Suc 0)" by simp
  have "monitor_idle_and_run 2 1 idle_world = (Raise (SystemExit 0), w')"
    unfolding n by (simp add: h q run)
  with t show ?thesis by blast
qed

lemma threshold_of_ten: "threshold_of exact_mul (Finite 10) = Inr 600"
  by (simp add: threshold_of_def int_of_float_def times_sixty_def exact_mul_def py_int_def)

lemma threshold_of_nan: "threshold_of mul NaN = Inl ValueError"
  by (simp add: threshold_of_def int_of_float_def times_sixty_def)

theorem animation_gated_in_monitor_witness:
  "fst (monitor_idle_and_run 2 1 idle_world) = Raise (SystemExit 0)
   \<and> trace (snd (monitor_idle_and_run 2 1 idle_world))
       = [RestoreCursor, ForceArrow, IdleRead 1500, AnimStart, IdleRead 1500]
   \<and> (\<exists>es. trace (snd (monitor_idle_and_run 2 1 idle_world)) = es @ trace idle_world
          \<and> gated 1 es)
   \<and> threshold_of (fp_mul closed_world) (Finite 10) = Inr 600
   \<and> (\<exists>es. trace (snd (main (Inr (Finite 10)) 1 closed_world)) = es @ AnimStart # trace closed_world)
   \<and> threshold_of (fp_mul closed_world) NaN = Inl ValueError
   \<and> fst (main (Inr NaN) 1 closed_world) = Raise ValueError
   \<and> trace (snd (main (Inr NaN) 1 closed_world)) = [CloseDisplay, RestoreCursor]"
proof -
  let ?R = "monitor_idle_and_run 2 1 idle_world"
  have h1: "?R = (fst ?R, snd ?R)" by simp
  have t10: "threshold_of (fp_mul closed_world) (Finite 10) = Inr 600"
    by (simp add: closed_world_def threshold_of_ten)
  have tn: "threshold_of (fp_mul closed_world) NaN = Inl ValueError"
    by (rule threshold_of_nan)
  have h2: "display closed_world = None \<and> server closed_world \<noteq> None
      \<and> threshold_of (fp_mul closed_world) (Finite 10) = Inr 600"
    using t10 by (simp add: closed_world_def)
  have h3: "display closed_world = None \<and> server closed_world \<noteq> None
      \<and> (Inr NaN = (Inl ValueError :: exn + pyfloat)
          \<or> (\<exists>m. (Inr NaN :: exn + pyfloat) = Inr m
                \<and> threshold_of (fp_mul closed_world) m = Inl ValueError))"
    using tn by (simp add: closed_world_def)
  note T = animation_gated_in_monitor
    [OF h1, where ?w0.0 = closed_world and minutes = "Finite 10" and thr = 600 and ?fuel0.0 = 1
       and parsed = "Inr NaN" and e = ValueError]
  from T have A: "\<exists>es. trace (snd ?R) = es @ trace idle_world \<and> gated 1 es" by (rule conjunct1)
  from T h2 have B: "\<exists>es. trace (snd (main (Inr (Finite 10)) 1 closed_world))
        = es @ AnimStart # trace closed_world"
    by blast
  from T h3 have D: "fst (main (Inr NaN) 1 closed_world) = Raise ValueError
      \<and> trace (snd (main (Inr NaN) 1 closed_world)) = CloseDisplay # RestoreCursor # trace closed_world"
    by blast
  have tr: "trace closed_world = []" by (simp add: closed_world_def)
  from monitor_idle_world have C: "fst ?R = Raise (SystemExit 0)"
    "trace (snd ?R) = [RestoreCursor, ForceArrow, IdleRead 1500, AnimStart, IdleRead 1500]"
    by auto
  from A B C D t10 tn tr show ?thesis by simp
qed

text \<open>
  Claim C6 as stated fails: with ten minutes configured and a user who is never idle,
  \<open>main\<close> has entered the animation before the first idle reading, which is 0 ms.
\<close>

theorem main_starts_animation_counterexample:
  "fst (main (Inr (Finite 10)) 1 closed_world) = Raise (SystemExit 0)
   \<and> trace (snd (main (Inr (Finite 10)) 1 closed_world))
       = [CloseDisplay, RestoreCursor, RestoreCursor, ForceArrow, IdleRead 0, AnimStart]
   \<and> threshold_of (fp_mul closed_world) (Finite 10) = Inr 600
   \<and> \<not> gated 600 (trace (snd (main (Inr (Finite 10)) 1 closed_world)))"
proof -
  let ?w1 = "closed_world\<lparr>display := Some 1\<rparr>"
  have o: "xc_open closed_world = (Return (), ?w1)"
    by (simp add: xc_open_def closed_world_def)
  have "\<exists>w'. run_cursor_screensaver 120 (Suc 0) ?w1 = (Raise (SystemExit 0), w')
           \<and> trace w' = RestoreCursor # ForceArrow # IdleRead 0 # AnimStart # trace ?w1
           \<and> display w' = Some 1"
    by (rule run_quit_at_once) (simp_all add: closed_world_def)
  then obtain w' where run: "run_cursor_screensaver 120 (Suc 0) ?w1 = (Raise (SystemExit 0), w')"
    and t: "trace w' = [RestoreCursor, ForceArrow, IdleRead 0, AnimStart]"
    and d: "display w' = Some 1"
    by (auto simp: closed_world_def)
  have p: "threshold_of (fp_mul closed_world) (Finite 10) = Inr 600"
    by (simp add: closed_world_def threshold_of_ten)
  then have p1: "threshold_of (fp_mul ?w1) (Finite 10) = Inr 600" by simp
  have b: "main_body (Inr (Finite 10)) 1 ?w1 = (Raise (SystemExit 0), w')"
    using run p1 by (simp add: main_body_def then_do_def)
  have c: "xc_close w' = (Return (), (record_event CloseDisplay (record_event RestoreCursor w'))\<lparr>display := None\<rparr>)"
    using d by (simp add: xc_close_def)
  have m: "main (Inr (Finite 10)) 1 closed_world
      = (Raise (SystemExit 0), (record_event CloseDisplay (record_event RestoreCursor w'))\<lparr>display := None\<rparr>)"
    using o b c by (simp add: main_def then_do_def)
  have T: "trace (snd (main (Inr (Finite 10)) 1 closed_world))
       = [CloseDisplay, RestoreCursor, RestoreCursor, ForceArrow, IdleRead 0, AnimStart]"
    using m t by (simp add: record_event_def)
  have "\<not> gated 600 [CloseDisplay, RestoreCursor, RestoreCursor, ForceArrow, IdleRead 0, AnimStart]"
    by simp
  with T have G: "\<not> gated 600 (trace (snd (main (Inr (Finite 10)) 1 closed_world)))" by simp
  from m have F: "fst (main (Inr (Finite 10)) 1 closed_world) = Raise (SystemExit 0)"
    by (simp only: fst_conv)
  from F T p G show ?thesis by (intro conjI)
qed

lemma py_round_bounds:
  assumes "0 \<le> x" and "x \<le> real_of_int k"
  shows "0 \<le> py_round x \<and> py_round x \<le> k"
proof -
  have f0: "0 \<le> \<lfloor>x\<rfloor>" using assms(1) by simp
  have fk: "\<lfloor>x\<rfloor> \<le> k" using assms(2) by (simp add: floor_le_iff)
  show ?thesis
  proof (cases "x = real_of_int k")
    case True
    then show ?thesis using f0 by (simp add: py_round_def Let_def)
  next
    case False
    with assms(2) have "x < real_of_int k" by simp
    then have "\<lfloor>x\<rfloor> < k" by (simp add: floor_less_iff)
    with f0 show ?thesis by (auto simp: py_round_def Let_def)
  qed
qed

lemma edge_pass_in_bounds:
  assumes "1 \<le> max_x" and "1 \<le> max_y"
    and "edge_pass max_x max_y px py = ((qx, qy), fl)"
  shows "0 \<le> qx \<and> qx \<le> max_x \<and> 0 \<le> qy \<and> qy \<le> max_y"
  using assms
  by (auto simp: edge_pass_def Let_def clamp_def min_x_def min_y_def split: if_splits)

lemma edge_pass_overshoot:
  "fst (fst (edge_pass max_x max_y (max_x + 5) py)) = max_x - 1"
  by (simp add: edge_pass_def Let_def clamp_def min_x_def min_y_def)

lemma frame_update_in_bounds:
  assumes mx: "1 \<le> max_x" and my: "1 \<le> max_y"
    and fu: "frame_update fp max_x max_y a now g = Inr (a', g')"
  shows "0 \<le> pos_x a' \<and> pos_x a' \<le> max_x \<and> 0 \<le> pos_y a' \<and> pos_y a' \<le> max_y"
proof -
  define dt where "dt = max 0 (min 0.05 (now - prev_t a))"
  define px where "px = pos_x a + vel_x a * dt"
  define py where "py = pos_y a + vel_y a * dt"
  obtain qx qy fl where e: "edge_pass max_x max_y px py = ((qx, qy), fl)"
    by (cases "edge_pass max_x max_y px py") auto
  from fu e have "pos_x a' = qx \<and> pos_y a' = qy"
    by (auto simp: frame_update_def Let_def dt_def px_def py_def
        split: prod.splits if_splits sum.splits)
  with edge_pass_in_bounds [OF mx my e] show ?thesis by simp
qed

subsection \<open>Pointer writes stay on the screen\<close>

text \<open>
  Claim C8, amended. On a screen at least two pixels wide and two pixels high, every
  position that \<open>run_cursor_screensaver\<close> passes to the pointer-write call lies within
  \<open>[0, width-1] \<times> [0, height-1]\<close>, wherever the cursor started. A position that
  integration leaves at \<open>max_x + 5\<close> is set to exactly \<open>max_x - 1\<close> by one
  edge-resolution pass, and when \<open>max_x\<close> and \<open>max_y\<close> are at least 1 the pass leaves
  the position inside \<open>[0, max_x] \<times> [0, max_y]\<close>.
\<close>

theorem pointer_writes_within_bounds:
  assumes run: "run_cursor_screensaver fps fuel w = (r, w')"
    and b: "bounds w = (width, height)" and "2 \<le> width" and "2 \<le> height"
  shows "(\<exists>es. trace w' = es @ trace w
            \<and> (\<forall>x y. WarpPointer x y \<in> set es
                  \<longrightarrow> 0 \<le> x \<and> x \<le> width - 1 \<and> 0 \<le> y \<and> y \<le> height - 1))
         \<and> fst (fst (edge_pass max_x max_y (max_x + 5) py)) = max_x - 1
         \<and> (1 \<le> max_x \<and> 1 \<le> max_y
              \<longrightarrow> 0 \<le> fst (fst (edge_pass max_x max_y px py))
                \<and> fst (fst (edge_pass max_x max_y px py)) \<le> max_x
                \<and> 0 \<le> snd (fst (edge_pass max_x max_y px py))
                \<and> snd (fst (edge_pass max_x max_y px py)) \<le> max_y)"
proof -
  define P where "P = (\<lambda>e. \<forall>x y. e = WarpPointer x y
              \<longrightarrow> 0 \<le> x \<and> x \<le> width - 1 \<and> 0 \<le> y \<and> y \<le> height - 1)"
  let ?mx = "real_of_int (fst (bounds w) - 1)" and ?my = "real_of_int (snd (bounds w) - 1)"
  have mx: "1 \<le> ?mx" and my: "1 \<le> ?my" using assms(2-4) by simp_all
  have G: "grows P w w'"
    using run
  proof (cases rule: run_cursor_screensaver_cases)
    case (early e)
    then show ?thesis by (simp add: grows_def P_def)
  next
    case (loop n a dt g')
    obtain r6 w6 where l: "animation_loop fuel ?mx ?my dt a (loop_entry w n g') = (r6, w6)"
      by (cases "animation_loop fuel ?mx ?my dt a (loop_entry w n g')")
    have warp: "\<And>fp a now g a' g'. frame_update fp ?mx ?my a now g = Inr (a', g')
                 \<Longrightarrow> P (WarpPointer (py_round (pos_x a')) (py_round (pos_y a')))"
    proof -
      fix fp a now g a' g'
      assume fu: "frame_update fp ?mx ?my a now g = Inr (a', g')"
      note B = frame_update_in_bounds [OF mx my fu]
      from B have "0 \<le> py_round (pos_x a') \<and> py_round (pos_x a') \<le> fst (bounds w) - 1"
        by (intro py_round_bounds) simp_all
      moreover from B have "0 \<le> py_round (pos_y a') \<and> py_round (pos_y a') \<le> snd (bounds w) - 1"
        by (intro py_round_bounds) simp_all
      ultimately show "P (WarpPointer (py_round (pos_x a')) (py_round (pos_y a')))"
        using b by (simp add: P_def)
    qed
    have g6: "grows P (loop_entry w n g') w6"
    proof (rule animation_loop_grows [where P = P, OF _ _ _ l])
      show "\<And>n. P (IdleRead n)" by (simp add: P_def)
      show "\<And>d. P (Sleep d)" by (simp add: P_def)
      show "\<And>fp a now g a' g'. frame_update fp ?mx ?my a now g = Inr (a', g')
                 \<Longrightarrow> P (WarpPointer (py_round (pos_x a')) (py_round (pos_y a')))"
        by (rule warp)
    qed
    have g5: "grows P w (loop_entry w n g')"
      by (simp add: grows_def loop_entry_def P_def)
    have g7: "grows P w6 w'"
      using loop(3) l
      by (cases r6) (auto simp: finally_restore_def restore_cursor_def grows_def record_event_def P_def
          split: if_splits)
    from g5 g6 g7 show ?thesis by (blast intro: grows_trans)
  qed
  then have A: "\<exists>es. trace w' = es @ trace w
            \<and> (\<forall>x y. WarpPointer x y \<in> set es
                  \<longrightarrow> 0 \<le> x \<and> x \<le> width - 1 \<and> 0 \<le> y \<and> y \<le> height - 1)"
    by (auto simp: grows_def P_def)
  have C: "1 \<le> max_x \<and> 1 \<le> max_y
              \<longrightarrow> 0 \<le> fst (fst (edge_pass max_x max_y px py))
                \<and> fst (fst (edge_pass max_x max_y px py)) \<le> max_x
                \<and> 0 \<le> snd (fst (edge_pass max_x max_y px py))
                \<and> snd (fst (edge_pass max_x max_y px py)) \<le> max_y"
  proof (intro impI, elim conjE)
    assume m: "1 \<le> max_x" "1 \<le> max_y"
    obtain qx qy fl where e: "edge_pass max_x max_y px py = ((qx, qy), fl)"
      by (cases "edge_pass max_x max_y px py") auto
    from edge_pass_in_bounds [OF m e] e
    show "0 \<le> fst (fst (edge_pass max_x max_y px py))
                \<and> fst (fst (edge_pass max_x max_y px py)) \<le> max_x
                \<and> 0 \<le> snd (fst (edge_pass max_x max_y px py))
                \<and> snd (fst (edge_pass max_x max_y px py)) \<le> max_y" by simp
  qed
  from A edge_pass_overshoot C show ?thesis by blast
qed

lemma frame_update_pos:
  "\<exists>a' g'. frame_update fp max_x max_y a now g = Inr (a', g')
     \<and> (pos_x a', pos_y a')
        = fst (edge_pass max_x max_y
            (pos_x a + vel_x a * max 0 (min 0.05 (now - prev_t a)))
            (pos_y a + vel_y a * max 0 (min 0.05 (now - prev_t a))))"
proof -
  let ?dt = "max 0 (min 0.05 (now - prev_t a))"
  obtain qx qy hl hr ht hb where e: "edge_pass max_x max_y (pos_x a + vel_x a * ?dt)
      (pos_y a + vel_y a * ?dt) = ((qx, qy), (hl, hr, ht, hb))"
    by (cases "edge_pass max_x max_y (pos_x a + vel_x a * ?dt) (pos_y a + vel_y a * ?dt)") auto
  obtain vx vy g' where p: "pick_diagonal_velocity fp (max 150 (hypot (vel_x a) (vel_y a)))
      hl hr ht hb (vel_x a) (vel_y a) g = Inr ((vx, vy), g')"
    by (rule pick_result)
  show ?thesis
    using e p by (simp add: frame_update_def Let_def)
qed

lemma animation_loop_one_frame:
  assumes d: "display w = Some d" and hk: "\<not> hotkey_tape w (hotkey_pos w)"
    and idle: "idle_tape w (idle_pos w) = Some m" and still: "\<not> m + 50 < idle_prev_ms a"
  shows "\<exists>w'. animation_loop (Suc 0) max_x max_y dt a w = (Unfinished, w')
     \<and> trace w' = Sleep dt
         # WarpPointer
             (py_round (fst (fst (edge_pass max_x max_y
                (pos_x a + vel_x a * max 0 (min 0.05 (clock_tape w (clock_pos w) - prev_t a)))
                (pos_y a + vel_y a * max 0 (min 0.05 (clock_tape w (clock_pos w) - prev_t a)))))))
             (py_round (snd (fst (edge_pass max_x max_y
                (pos_x a + vel_x a * max 0 (min 0.05 (clock_tape w (clock_pos w) - prev_t a)))
                (pos_y a + vel_y a * max 0 (min 0.05 (clock_tape w (clock_pos w) - prev_t a)))))))
         # IdleRead m # trace w"
proof -
  let ?now = "clock_tape w (clock_pos w)"
  let ?w3 = "w\<lparr>hotkey_pos := Suc (hotkey_pos w), trace := IdleRead m # trace w,
      idle_pos := Suc (idle_pos w), clock_pos := Suc (clock_pos w)\<rparr>"
  obtain a' g' where fu: "frame_update (fp_reverses w) max_x max_y (a\<lparr>idle_prev_ms := m\<rparr>) ?now (rand w)
        = Inr (a', g')"
    and pos: "(pos_x a', pos_y a')
        = fst (edge_pass max_x max_y
            (pos_x a + vel_x a * max 0 (min 0.05 (?now - prev_t a)))
            (pos_y a + vel_y a * max 0 (min 0.05 (?now - prev_t a))))"
    using frame_update_pos [of "fp_reverses w" max_x max_y "a\<lparr>idle_prev_ms := m\<rparr>" ?now "rand w"] by auto
  from pos have px: "fst (fst (edge_pass max_x max_y
            (pos_x a + vel_x a * max 0 (min 0.05 (?now - prev_t a)))
            (pos_y a + vel_y a * max 0 (min 0.05 (?now - prev_t a))))) = pos_x a'"
    and py: "snd (fst (edge_pass max_x max_y
            (pos_x a + vel_x a * max 0 (min 0.05 (?now - prev_t a)))
            (pos_y a + vel_y a * max 0 (min 0.05 (?now - prev_t a))))) = pos_y a'"
    by (simp_all add: prod_eq_iff)
  show ?thesis
    unfolding px py
    using d hk idle still fu
    by (simp add: hotkey_quit_pressed_def query_idle_ms_def perf_counter_def set_cursor_pos_def
        sleep_def record_event_def)
qed

lemma uniform_tape0: "uniform 300 700 (\<lambda>i. 0, 0) = (300, (\<lambda>i. 0, Suc 0))"
  by (simp add: uniform_def random_unit_def)

lemma hypot_0: "hypot 0 0 = 0"
  by (simp add: hypot_def)

lemma pick_first_tape0:
  "pick_diagonal_velocity exact_fp 300 False False False False 0 0 (\<lambda>i. 0, Suc 0)
     = Inr ((- (300 / sqrt 2), 300 / sqrt 2), (\<lambda>i. 0, 3))"
proof -
  let ?c = "max 1 300 / sqrt 2 :: real"
  have S: "s_prev_of 0 0 = Inr None"
    by (simp add: s_prev_of_def Let_def hypot_0)
  have C: "candidates_of None (\<lambda>i. 0, Suc 0) = ([-1, 1], (\<lambda>i. 0, 2))"
    by (simp add: candidates_of_def shuffle_def randbelow_def numeral_2_eq_2)
  have ch: "choice [-1, 1] (\<lambda>i. 0, 2) = (-1, (\<lambda>i. 0, 3))"
    by (simp add: choice_def randbelow_def numeral_3_eq_3 numeral_2_eq_2)
  have "accept exact_fp ?c 0 0 (hypot 0 0) (-1) (- 1 * - 1) = Inr (Some (- 1 * ?c, - 1 * - 1 * ?c))"
    by (rule accept_slow) (simp add: hypot_0)
  then have T: "try_candidate exact_fp ?c False False False False 0 0 (hypot 0 0) (- 1) (\<lambda>i. 0, 2)
      = Inr (Some (- (300 / sqrt 2), 300 / sqrt 2), (\<lambda>i. 0, 3))"
    by (simp add: try_candidate_def wall_sign_def ch)
  have n: "(16::nat) = Suc 15" by simp
  have "search exact_fp 16 ?c False False False False 0 0 (hypot 0 0) None (\<lambda>i. 0, Suc 0)
      = Inr (Some (- (300 / sqrt 2), 300 / sqrt 2), (\<lambda>i. 0, 3))"
    by (rule search_hit [OF n C try_candidates_hit [OF T]])
  then show ?thesis by (simp add: pick_unfold S)
qed

lemma run_one_frame:
  "\<exists>w'. run_cursor_screensaver 120 1 (walk_world\<lparr>bounds := (width, height)\<rparr>) = (Unfinished, w')
     \<and> trace w' =
         [Sleep (1 / 120),
          WarpPointer
            (py_round (fst (fst (edge_pass (real_of_int (width - 1)) (real_of_int (height - 1))
               (- (3 / sqrt 2)) (3 / sqrt 2)))))
            (py_round (snd (fst (edge_pass (real_of_int (width - 1)) (real_of_int (height - 1))
               (- (3 / sqrt 2)) (3 / sqrt 2))))),
          IdleRead 0, ForceArrow, IdleRead 0, AnimStart]"
proof -
  let ?w = "walk_world\<lparr>bounds := (width, height)\<rparr>"
  let ?a = "\<lparr>pos_x = real_of_int (fst (pointer ?w)), pos_y = real_of_int (snd (pointer ?w)),
      vel_x = - (300 / sqrt 2), vel_y = 300 / sqrt 2, idle_prev_ms = 0,
      prev_t = clock_tape ?w (clock_pos ?w)\<rparr>"
  let ?w5 = "loop_entry ?w 0 (\<lambda>i. 0, 3)"
  have d: "display ?w = Some 1" and idle: "idle_tape ?w (idle_pos ?w) = Some 0"
    by (simp_all add: walk_world_def closed_world_def)
  have p: "pick_diagonal_velocity (fp_reverses ?w) (fst (uniform 300 700 (rand ?w))) False False False False 0 0
             (snd (uniform 300 700 (rand ?w))) = Inr ((- (300 / sqrt 2), 300 / sqrt 2), (\<lambda>i. 0, 3))"
    by (simp add: walk_world_def closed_world_def uniform_tape0 pick_first_tape0)
  have U: "run_cursor_screensaver 120 1 ?w
      = finally_restore (animation_loop 1 (real_of_int (fst (bounds ?w) - 1))
             (real_of_int (snd (bounds ?w) - 1)) (1 / max 30 120) ?a ?w5)"
    by (rule run_cursor_screensaver_unfold [OF d idle p])
  have d5: "display ?w5 = Some 1" and hk5: "\<not> hotkey_tape ?w5 (hotkey_pos ?w5)"
    and idle5: "idle_tape ?w5 (idle_pos ?w5) = Some 0" and still: "\<not> 0 + 50 < idle_prev_ms ?a"
    by (simp_all add: loop_entry_def walk_world_def closed_world_def)
  from animation_loop_one_frame [OF d5 hk5 idle5 still,
      of "real_of_int (fst (bounds ?w) - 1)" "real_of_int (snd (bounds ?w) - 1)" "1 / max 30 120"]
  obtain w' where L: "animation_loop (Suc 0) (real_of_int (fst (bounds ?w) - 1))
             (real_of_int (snd (bounds ?w) - 1)) (1 / max 30 120) ?a ?w5 = (Unfinished, w')"
    and t: "trace w' = Sleep (1 / max 30 120)
         # WarpPointer
             (py_round (fst (fst (edge_pass (real_of_int (fst (bounds ?w) - 1)) (real_of_int (snd (bounds ?w) - 1))
                (pos_x ?a + vel_x ?a * max 0 (min 0.05 (clock_tape ?w5 (clock_pos ?w5) - prev_t ?a)))
                (pos_y ?a + vel_y ?a * max 0 (min 0.05 (clock_tape ?w5 (clock_pos ?w5) - prev_t ?a)))))))
             (py_round (snd (fst (edge_pass (real_of_int (fst (bounds ?w) - 1)) (real_of_int (snd (bounds ?w) - 1))
                (pos_x ?a + vel_x ?a * max 0 (min 0.05 (clock_tape ?w5 (clock_pos ?w5) - prev_t ?a)))
                (pos_y ?a + vel_y ?a * max 0 (min 0.05 (clock_tape ?w5 (clock_pos ?w5) - prev_t ?a)))))))
         # IdleRead 0 # trace ?w5"
    by blast
  have dt: "max 0 (min 0.05 (clock_tape ?w5 (clock_pos ?w5) - prev_t ?a)) = (1 / 100 :: real)"
    by (simp add: loop_entry_def walk_world_def closed_world_def)
  have px: "pos_x ?a + vel_x ?a * (1 / 100) = - (3 / sqrt 2)"
    and py: "pos_y ?a + vel_y ?a * (1 / 100) = 3 / sqrt 2"
    by (simp_all add: walk_world_def closed_world_def)
  have R: "run_cursor_screensaver 120 1 ?w = (Unfinished, w')"
    using U L by simp
  have T: "trace w' =
         [Sleep (1 / 120),
          WarpPointer
            (py_round (fst (fst (edge_pass (real_of_int (width - 1)) (real_of_int (height - 1))
               (- (3 / sqrt 2)) (3 / sqrt 2)))))
            (py_round (snd (fst (edge_pass (real_of_int (width - 1)) (real_of_int (height - 1))
               (- (3 / sqrt 2)) (3 / sqrt 2))))),
          IdleRead 0, ForceArrow, IdleRead 0, AnimStart]"
    unfolding t dt px py
    by (simp add: loop_entry_def walk_world_def closed_world_def)
  from R T show ?thesis by blast
qed

lemma three_over_sqrt2: "2 < 3 / sqrt 2 \<and> 3 / sqrt 2 < 5 / 2"
proof -
  have "(6 / 5) ^ 2 < (2::real)" by (simp add: power2_eq_square)
  then have l: "6 / 5 < sqrt 2" by (rule real_less_rsqrt)
  have "(2::real) < (3 / 2) ^ 2" by (simp add: power2_eq_square)
  then have u: "sqrt 2 < 3 / 2" by (intro real_less_lsqrt) simp_all
  from l u have "2 * sqrt 2 < 3 \<and> 3 * 2 < 5 * sqrt 2" by simp
  then show ?thesis by (simp add: field_simps)
qed

lemma py_round_small: "py_round 1 = 1 \<and> py_round (- 1) = - 1"
proof -
  have "\<lfloor>real_of_int (- 1)\<rfloor> = - 1" by (rule floor_of_int)
  then have "\<lfloor>- 1 :: real\<rfloor> = - 1" by simp
  then show ?thesis by (simp add: py_round_def Let_def)
qed

lemma py_round_three_over_sqrt2: "py_round (3 / sqrt 2) = 2"
proof -
  have f: "\<lfloor>3 / sqrt 2\<rfloor> = 2"
    using three_over_sqrt2 by (intro floor_unique) simp_all
  show ?thesis using three_over_sqrt2 by (simp add: py_round_def Let_def f)
qed

lemma edge_pass_tiny:
  "edge_pass 0 0 (- (3 / sqrt 2)) (3 / sqrt 2) = ((1, - 1), (True, False, False, True))"
  by (simp add: edge_pass_def Let_def clamp_def min_x_def min_y_def)

lemma edge_pass_large:
  "edge_pass 1919 1079 (- (3 / sqrt 2)) (3 / sqrt 2) = ((1, 3 / sqrt 2), (True, False, False, False))"
  using three_over_sqrt2
  by (simp add: edge_pass_def Let_def clamp_def min_x_def min_y_def)

theorem pointer_writes_within_bounds_witness:
  "fst (run_cursor_screensaver 120 1 (walk_world\<lparr>bounds := (1920, 1080)\<rparr>)) = Unfinished
   \<and> trace (snd (run_cursor_screensaver 120 1 (walk_world\<lparr>bounds := (1920, 1080)\<rparr>)))
       = [Sleep (1 / 120), WarpPointer 1 2, IdleRead 0, ForceArrow, IdleRead 0, AnimStart]
   \<and> (\<exists>es. trace (snd (run_cursor_screensaver 120 1 (walk_world\<lparr>bounds := (1920, 1080)\<rparr>)))
            = es @ trace (walk_world\<lparr>bounds := (1920, 1080)\<rparr>)
          \<and> (\<forall>x y. WarpPointer x y \<in> set es
                \<longrightarrow> 0 \<le> x \<and> x \<le> 1920 - 1 \<and> 0 \<le> y \<and> y \<le> 1080 - 1))
   \<and> fst (fst (edge_pass 1919 1079 (1919 + 5) 7)) = 1919 - 1
   \<and> 0 \<le> fst (fst (edge_pass 1919 1079 (1919 + 5) 7))
   \<and> fst (fst (edge_pass 1919 1079 (1919 + 5) 7)) \<le> 1919"
proof -
  let ?w = "walk_world\<lparr>bounds := (1920, 1080)\<rparr>"
  let ?R = "run_cursor_screensaver 120 1 ?w"
  have h1: "?R = (fst ?R, snd ?R)" by simp
  have h2: "bounds ?w = (1920, 1080)" by simp
  have h3: "(2::int) \<le> 1920" and h4: "(2::int) \<le> 1080" by simp_all
  have h5: "(1::real) \<le> 1919 \<and> (1::real) \<le> 1079" by simp
  note T = pointer_writes_within_bounds [OF h1 h2 h3 h4, of 1919 1079 7 "1919 + 5"]
  from T have A: "\<exists>es. trace (snd ?R) = es @ trace ?w
          \<and> (\<forall>x y. WarpPointer x y \<in> set es
                \<longrightarrow> 0 \<le> x \<and> x \<le> 1920 - 1 \<and> 0 \<le> y \<and> y \<le> 1080 - 1)"
    by (rule conjunct1)
  from T have B: "fst (fst (edge_pass 1919 1079 (1919 + 5) 7)) = 1919 - 1"
    by blast
  from T h5 have C: "0 \<le> fst (fst (edge_pass 1919 1079 (1919 + 5) 7))
      \<and> fst (fst (edge_pass 1919 1079 (1919 + 5) 7)) \<le> 1919"
    by blast
  from run_one_frame [of 1920 1080]
  have E: "fst ?R = Unfinished"
    "trace (snd ?R) = [Sleep (1 / 120), WarpPointer 1 2, IdleRead 0, ForceArrow, IdleRead 0, AnimStart]"
    by (auto simp: edge_pass_large py_round_small py_round_three_over_sqrt2)
  from E A B C show ?thesis by (intro conjI) simp_all
qed

text \<open>
  Claim C8 as stated fails on a screen of one pixel: the cursor starts at \<open>(0, 0)\<close>, in
  bounds, and the first frame writes \<open>(1, -1)\<close>; the pass that finds \<open>pos_x\<close> at
  \<open>max_x + 5\<close> leaves it at \<open>-1\<close>.
\<close>

theorem one_pixel_screen_counterexample:
  "pointer (walk_world\<lparr>bounds := (1, 1)\<rparr>) = (0, 0)
   \<and> fst (run_cursor_screensaver 120 1 (walk_world\<lparr>bounds := (1, 1)\<rparr>)) = Unfinished
   \<and> trace (snd (run_cursor_screensaver 120 1 (walk_world\<lparr>bounds := (1, 1)\<rparr>)))
       = [Sleep (1 / 120), WarpPointer 1 (- 1), IdleRead 0, ForceArrow, IdleRead 0, AnimStart]
   \<and> fst (fst (edge_pass 0 0 (0 + 5) 0)) = - 1"
proof -
  let ?R = "run_cursor_screensaver 120 1 (walk_world\<lparr>bounds := (1, 1)\<rparr>)"
  from run_one_frame [of 1 1]
  have E: "fst ?R = Unfinished"
    "trace (snd ?R) = [Sleep (1 / 120), WarpPointer 1 (- 1), IdleRead 0, ForceArrow, IdleRead 0, AnimStart]"
    by (auto simp: edge_pass_tiny py_round_small)
  have P: "pointer (walk_world\<lparr>bounds := (1, 1)\<rparr>) = (0, 0)"
    by (simp add: walk_world_def closed_world_def)
  have O: "fst (fst (edge_pass 0 0 (0 + 5) 0)) = - 1"
    by (simp add: edge_pass_def Let_def clamp_def min_x_def min_y_def)
  from P E O show ?thesis by (intro conjI)
qed

end
